theory Spec2Isabelle
  imports Main "HOL-Library.Multiset"
begin

section \<open>Values of the host language\<close>

text \<open>
  The container of \<^verbatim>\<open>lib/application.js\<close> is written in JavaScript: the arguments of its
  public operations are dynamically typed. The values the code inspects are modelled by
  \<open>jsval\<close>; a function value is either a function supplied by the user (\<open>UserFn\<close>) or
  one of the two closures that \<^verbatim>\<open>onReq\<close> creates: \<open>MReply\<close> (with the id of the actor
  the closure captured, \<open>None\<close> when \<^verbatim>\<open>actors.get\<close> found nothing) and \<open>ReqReply\<close>.
\<close>

datatype fnval = UserFn nat | MReply "string option" | ReqReply

datatype jsval =
    JUndefined
  | JNull
  | JBool bool
  | JNum int
  | JStr string
  | JObj "(string \<times> jsval) list"
  | JFun fnval

datatype jserror = TypeError | ReferenceError

fun truthy :: "jsval \<Rightarrow> bool" where
  "truthy JUndefined = False"
| "truthy JNull = False"
| "truthy (JBool b) = b"
| "truthy (JNum n) = (n \<noteq> 0)"
| "truthy (JStr s) = (s \<noteq> [])"
| "truthy (JObj kvs) = True"
| "truthy (JFun f) = True"

text \<open>The lodash predicates \<^verbatim>\<open>_.isFunction\<close>, \<^verbatim>\<open>_.isObject\<close> and \<^verbatim>\<open>_.isString\<close>.\<close>

fun isFunction :: "jsval \<Rightarrow> bool" where
  "isFunction (JFun f) = True"
| "isFunction v = False"

fun isObject :: "jsval \<Rightarrow> bool" where
  "isObject (JObj kvs) = True"
| "isObject (JFun f) = True"
| "isObject v = False"

fun isString :: "jsval \<Rightarrow> bool" where
  "isString (JStr s) = True"
| "isString v = False"

text \<open>Property read \<^verbatim>\<open>v.k\<close> on a value that is neither null nor undefined.\<close>

fun getProp :: "jsval \<Rightarrow> string \<Rightarrow> jsval" where
  "getProp (JObj kvs) k = (case map_of kvs k of Some v \<Rightarrow> v | None \<Rightarrow> JUndefined)"
| "getProp v k = JUndefined"

section \<open>Messages, actors and the container state\<close>

text \<open>
  A request is the object built in \<^verbatim>\<open>send\<close>; \<open>r_cb = False\<close> stands for an absent
  \<^verbatim>\<open>cb\<close> property and \<open>r_reply = JUndefined\<close> for an absent \<^verbatim>\<open>reply\<close> property.
\<close>

record request =
  r_from :: string
  r_to :: string
  r_content :: jsval
  r_id :: string
  r_date :: int
  r_headers :: jsval
  r_timeout :: jsval
  r_cb :: bool
  r_reply :: jsval

record response =
  s_from :: jsval
  s_to :: jsval
  s_err :: jsval
  s_content :: jsval
  s_date :: jsval
  s_id :: string
  s_headers :: jsval
  s_reply :: jsval

datatype msgType = REQ_OUT | REQ_IN | RES_OUT | RES_IN

datatype msg = MReq request | MRes response

fun msg_reply :: "msg \<Rightarrow> jsval" where
  "msg_reply (MReq r) = r_reply r"
| "msg_reply (MRes s) = s_reply s"

fun set_reply :: "jsval \<Rightarrow> msg \<Rightarrow> msg" where
  "set_reply v (MReq r) = MReq (r\<lparr>r_reply := v\<rparr>)"
| "set_reply v (MRes s) = MRes (s\<lparr>s_reply := v\<rparr>)"

text \<open>
  A middleware is a user function \<^verbatim>\<open>(type, msg, next)\<close>. The model takes what it does
  with its arguments as its result: the calls it makes, in order, each either \<^verbatim>\<open>next()\<close>
  or \<^verbatim>\<open>msg.reply(err, content)\<close>. It may make no call, call \<^verbatim>\<open>next\<close> several times, or
  reply and go on. Middlewares are taken to run synchronously, not to catch the
  exceptions of what they call, and not to change the other fields of the message.
\<close>

datatype mw_action = CallNext | CallReply jsval jsval

type_synonym middleware = "msgType \<Rightarrow> msg \<Rightarrow> mw_action list"

datatype scope = PROCESS | LOCAL | REMOTE

text \<open>
  An actor handler is a user function of the request; the model takes as its result the
  calls \<^verbatim>\<open>req.reply(err, content)\<close> it makes, in order, and whether it then throws.
\<close>

datatype handler_outcome = Returns "(jsval \<times> jsval) list" | Throws "(jsval \<times> jsval) list"

record actor =
  a_id :: string
  a_scope :: scope
  a_container :: string
  a_onMessage :: "request \<Rightarrow> handler_outcome"

text \<open>The arguments of one \<^verbatim>\<open>send\<close> call, as the starting queue stores them.\<close>

record sendArgs =
  q_from :: string
  q_to :: string
  q_content :: jsval
  q_timeout :: jsval
  q_cb :: jsval
  q_headers :: jsval

text \<open>
  The listeners of the internal emitter \<^verbatim>\<open>events\<close>, in registration order. The three
  families of event names \<^verbatim>\<open>'res|' + id\<close>, \<^verbatim>\<open>'drop|' + id\<close> and \<^verbatim>\<open>aid + '!found'\<close> are kept
  apart by the constructor: the model takes the names of different families to differ as
  strings (an AID that itself starts with \<^verbatim>\<open>res|\<close> or \<^verbatim>\<open>drop|\<close> is outside it). Each
  listener is a closure over the request object it was created for, given by that
  object's address in the store:
  \<^item> \<open>ResL id a cb\<close>: \<^verbatim>\<open>events.once('res|' + id, function (res) { onRes(res, cb) })\<close>;
  \<^item> \<open>DropL id a\<close>: \<^verbatim>\<open>events.on('drop|' + id, function () { onDrop(req) })\<close>;
  \<^item> \<open>FoundL aid a\<close>: \<^verbatim>\<open>events.once(aid + '!found', cb)\<close> with the callback of
    \<^verbatim>\<open>internalSend(req)\<close>.
\<close>

datatype listener = ResL string nat jsval | DropL string nat | FoundL string nat

text \<open>Closures scheduled with \<^verbatim>\<open>setImmediate\<close> and \<^verbatim>\<open>setTimeout\<close>.\<close>

datatype task =
    TCall jsval
  | TProcessStartingQueue
  | TSend sendArgs
  | THandler request "actor option"
  | TCallback nat jsval response
  | TTimeout nat
  | TRetry nat

text \<open>Callbacks handed to the remote transport and to discovery by \<^verbatim>\<open>start\<close> and \<^verbatim>\<open>stop\<close>.\<close>

datatype cont = KRemoteStarted jsval jsval | KDiscoveryStarted jsval | KRemoteStopped jsval

text \<open>
  What the container does to the outside: log lines, calls of user functions (tagged with
  the address of the request on whose behalf the call is made, if any), calls of the
  middlewares, of the transports, of discovery and of actor handlers, events of the
  facade, and exceptions that leave the container.
\<close>

datatype arg = AVal jsval | ARes response

datatype evarg = EStr string | EScope scope

datatype effect =
    Log string string
  | Thrown jserror
  | Call "nat option" jsval "arg list"
  | MwCalled msgType msg
  | RemoteStart
  | RemoteStop
  | DiscoveryStart jsval jsval
  | DiscoveryStop
  | DiscoverySetAddrs jsval
  | NotifySearched string
  | InprocSend request
  | RemoteSend string request
  | TransportReply response
  | HandlerCalled string request
  | FacadeEmit string "evarg list"

record state =
  started :: bool
  locked :: bool
  startingQueue :: "sendArgs list"
  properties :: "string \<rightharpoonup> jsval"
  middlewares :: "middleware list"
  listeners :: "listener list"
  immediates :: "task list"
  timers :: "(jsval \<times> task) list"
  heap :: "request list"
  registry :: "actor list"
  netIp :: jsval
  containerId :: string
  pending :: "cont list"
  effects :: "effect list"

text \<open>What the environment supplies to one turn: \<^verbatim>\<open>utils.uuid()\<close> and \<^verbatim>\<open>Date.now()\<close>.\<close>

record env =
  e_uuid :: string
  e_now :: int

definition init :: state where
  "init = \<lparr> started = False, locked = False, startingQueue = [],
     properties = [''default send timeout'' \<mapsto> JNum 30000,
                   ''max send timeout'' \<mapsto> JNum (5 * 60000),
                   ''retry delay'' \<mapsto> JNum 10,
                   ''max research retry'' \<mapsto> JNum 30,
                   ''research timeout'' \<mapsto> JNum 30000],
     middlewares = [], listeners = [], immediates = [], timers = [], heap = [],
     registry = [], netIp = JUndefined, containerId = ''container'', pending = [], effects = [] \<rparr>"

definition property :: "state \<Rightarrow> string \<Rightarrow> jsval" where
  "property st k = (case properties st k of Some v \<Rightarrow> v | None \<Rightarrow> JUndefined)"

definition eff :: "effect \<Rightarrow> state \<Rightarrow> state" where
  "eff e st = st\<lparr>effects := effects st @ [e]\<rparr>"

definition makeLog :: "string \<Rightarrow> string \<Rightarrow> state \<Rightarrow> state" where
  "makeLog lvl code st = eff (Log lvl code) st"

definition setImmediate :: "task \<Rightarrow> state \<Rightarrow> state" where
  "setImmediate t st = st\<lparr>immediates := immediates st @ [t]\<rparr>"

definition setTimeout :: "task \<Rightarrow> jsval \<Rightarrow> state \<Rightarrow> state" where
  "setTimeout t delay st = st\<lparr>timers := timers st @ [(delay, t)]\<rparr>"

text \<open>Calling a value: a \<^verbatim>\<open>TypeError\<close> unless it is a function.\<close>

definition callFn :: "nat option \<Rightarrow> jsval \<Rightarrow> arg list \<Rightarrow> state \<Rightarrow> state" where
  "callFn tag f args st =
     (if isFunction f then eff (Call tag f args) st else eff (Thrown TypeError) st)"

text \<open>
  The error object \<^verbatim>\<open>{code: 'TECHERR', cause: err}\<close>; \<^verbatim>\<open>err\<close> is what the logger returned
  for the log line with the given code.
\<close>

definition techerr :: "string \<Rightarrow> jsval" where
  "techerr code = JObj [(''code'', JStr ''TECHERR''), (''cause'', JObj [(''code'', JStr code)])]"

section \<open>Collaborators that are not part of \<^verbatim>\<open>application.js\<close>\<close>

text \<open>
  Modelled from the spec: the request schema \<^verbatim>\<open>schemas.message\<close> (the module
  \<^verbatim>\<open>./schemas\<close> is not among the sources). The spec gives
  \<^verbatim>\<open>{id: string, from: string, to: string, content?: any, date: integer,
  timeout: integer > 0, headers: object, cb?: boolean}\<close>; the fields that the record
  types as strings, integers and booleans need no check.
\<close>

definition validate_message :: "request \<Rightarrow> bool" where
  "validate_message req =
     ((case r_timeout req of JNum n \<Rightarrow> 0 < n | _ \<Rightarrow> False) \<and>
      (case r_headers req of JObj kvs \<Rightarrow> True | _ \<Rightarrow> False))"

text \<open>
  Modelled from the spec: the schema \<^verbatim>\<open>schemas.startParams\<close>, given as
  \<^verbatim>\<open>{ip?: string, discoveryAddr?: string, discoveryPort?: integer, stats?: 'on'|'off'}\<close>.
\<close>

definition optional :: "(jsval \<Rightarrow> bool) \<Rightarrow> jsval \<Rightarrow> bool" where
  "optional p v = (if v = JUndefined then True else p v)"

definition isInteger :: "jsval \<Rightarrow> bool" where
  "isInteger v = (case v of JNum n \<Rightarrow> True | _ \<Rightarrow> False)"

definition validate_startParams :: "jsval \<Rightarrow> bool" where
  "validate_startParams params =
     (case params of
        JObj kvs \<Rightarrow>
          optional isString (getProp params ''ip'') \<and>
          optional isString (getProp params ''discoveryAddr'') \<and>
          optional isInteger (getProp params ''discoveryPort'') \<and>
          optional (\<lambda>v. v = JStr ''on'' \<or> v = JStr ''off'') (getProp params ''stats'')
      | _ \<Rightarrow> False)"

text \<open>
  Modelled from the spec: the identifier utilities \<^verbatim>\<open>utils.aid\<close>. An AID is
  \<^verbatim>\<open>bare[/resource]\<close>; it is valid when \<^verbatim>\<open>bare\<close> is not empty and the resource is
  absent or not empty.
\<close>

definition aid_bare :: "string \<Rightarrow> string" where
  "aid_bare aid = takeWhile (\<lambda>c. c \<noteq> CHR ''/'') aid"

definition aid_isBare :: "string \<Rightarrow> bool" where
  "aid_isBare aid = (aid_bare aid = aid)"

definition aid_isValid :: "string \<Rightarrow> bool" where
  "aid_isValid aid =
     (aid_bare aid \<noteq> [] \<and> (aid_isBare aid \<or> drop (Suc (length (aid_bare aid))) aid \<noteq> []))"

text \<open>
  Modelled from the spec: the lookups of the actor registry \<^verbatim>\<open>actors\<close>.
  \<^verbatim>\<open>get(aid, scope?)\<close> returns the actor whose full AID matches, and prefers PROCESS,
  then LOCAL, then REMOTE when the scope is omitted; \<^verbatim>\<open>pick(aid)\<close> returns a full AID
  for the lookup, here the first known actor of the bare group.
\<close>

definition actors_get :: "actor list \<Rightarrow> string \<Rightarrow> scope option \<Rightarrow> actor option" where
  "actors_get reg aid sc =
     (case sc of
        Some s \<Rightarrow> find (\<lambda>a. a_id a = aid \<and> a_scope a = s) reg
      | None \<Rightarrow>
          (case find (\<lambda>a. a_id a = aid \<and> a_scope a = PROCESS) reg of
             Some a \<Rightarrow> Some a
           | None \<Rightarrow>
               (case find (\<lambda>a. a_id a = aid \<and> a_scope a = LOCAL) reg of
                  Some a \<Rightarrow> Some a
                | None \<Rightarrow> find (\<lambda>a. a_id a = aid \<and> a_scope a = REMOTE) reg)))"

definition actors_pick :: "actor list \<Rightarrow> string \<Rightarrow> string option" where
  "actors_pick reg aid =
     (if aid_isBare aid then map_option a_id (find (\<lambda>a. aid_bare (a_id a) = aid) reg)
      else map_option a_id (find (\<lambda>a. a_id a = aid) reg))"

section \<open>The middleware chain\<close>

text \<open>
  A middleware calls \<^verbatim>\<open>msg.reply(err, content)\<close>. A user function is called; the closure
  \<^verbatim>\<open>mReply\<close> of \<^verbatim>\<open>onReq\<close> evaluates \<^verbatim>\<open>actor.id\<close> and then the variable \<^verbatim>\<open>date\<close>, which is
  declared nowhere, before it could call the transport's \<^verbatim>\<open>reply\<close>; anything that is not
  a function cannot be called. (\<open>ReqReply\<close> is never installed as \<^verbatim>\<open>msg.reply\<close> of a
  chain; no call is recorded for it.)
\<close>

definition callReply :: "nat option \<Rightarrow> jsval \<Rightarrow> jsval \<Rightarrow> jsval \<Rightarrow> state \<Rightarrow> jserror option \<times> state" where
  "callReply tag f err content st =
     (case f of
        JFun (UserFn n) \<Rightarrow> (None, eff (Call tag f [AVal err, AVal content]) st)
      | JFun (MReply actorId) \<Rightarrow>
          (case actorId of None \<Rightarrow> (Some TypeError, st) | Some i \<Rightarrow> (Some ReferenceError, st))
      | JFun ReqReply \<Rightarrow> (None, st)
      | _ \<Rightarrow> (Some TypeError, st))"

datatype chain = Completed | Stopped | Threw jserror

text \<open>
  \<^verbatim>\<open>next\<close> of \<^verbatim>\<open>processMiddlewares\<close>, up to the first time it finds \<^verbatim>\<open>index < count\<close> false.
  The first argument holds the calls that the middlewares entered so far have still to
  make, innermost first; the second the middlewares from \<^verbatim>\<open>index\<close> on. A call of \<^verbatim>\<open>next\<close>
  enters the middleware at \<^verbatim>\<open>index\<close>, whoever makes the call, and \<^verbatim>\<open>index\<close> moves on. With
  no middleware left the result is \<open>Completed\<close>, with the calls that remain to be made
  after the completion callback has returned. An exception of \<^verbatim>\<open>msg.reply\<close> ends the chain.
\<close>

fun next_mw ::
  "mw_action list \<Rightarrow> middleware list \<Rightarrow> msgType \<Rightarrow> msg \<Rightarrow> nat option \<Rightarrow> state
     \<Rightarrow> chain \<times> mw_action list \<times> state" where
  "next_mw [] fs t m tag st = (Stopped, [], st)"
| "next_mw (CallReply err content # calls) fs t m tag st =
     (case callReply tag (msg_reply m) err content st of
        (None, st1) \<Rightarrow> next_mw calls fs t m tag st1
      | (Some e, st1) \<Rightarrow> (Threw e, [], st1))"
| "next_mw (CallNext # calls) (f # fs) t m tag st =
     next_mw (f t m @ calls) fs t m tag (eff (MwCalled t m) st)"
| "next_mw (CallNext # calls) [] t m tag st = (Completed, calls, st)"

text \<open>
  \<^verbatim>\<open>processMiddlewares(type, msg, reply, cb)\<close> up to the first call of \<^verbatim>\<open>cb\<close>: it sets
  \<^verbatim>\<open>msg.reply\<close> and calls \<^verbatim>\<open>next\<close>; when no middleware is left, \<^verbatim>\<open>msg.reply\<close> is deleted. The
  result \<open>Completed\<close> comes with the message on which \<^verbatim>\<open>cb\<close> is to run and the calls the
  middlewares make afterwards.
\<close>

definition processMiddlewares ::
  "msgType \<Rightarrow> msg \<Rightarrow> jsval \<Rightarrow> nat option \<Rightarrow> state \<Rightarrow> chain \<times> msg \<times> mw_action list \<times> state" where
  "processMiddlewares t m reply tag st =
     (let m1 = set_reply reply m
      in case next_mw [CallNext] (middlewares st) t m1 tag st of
           (Completed, calls, st1) \<Rightarrow> (Completed, set_reply JUndefined m1, calls, st1)
         | (Stopped, calls, st1) \<Rightarrow> (Stopped, m1, calls, st1)
         | (Threw e, calls, st1) \<Rightarrow> (Threw e, m1, calls, st1))"

text \<open>
  The completion callback \<^verbatim>\<open>cb\<close> and what follows it. Once no middleware is left, every
  call of \<^verbatim>\<open>next\<close> deletes \<^verbatim>\<open>msg.reply\<close> again and calls \<^verbatim>\<open>cb\<close> again; a call of \<^verbatim>\<open>msg.reply\<close>
  finds what the message then holds.
\<close>

fun recomplete ::
  "(msg \<Rightarrow> state \<Rightarrow> state) \<Rightarrow> nat option \<Rightarrow> msg \<Rightarrow> mw_action list \<Rightarrow> state
     \<Rightarrow> jserror option \<times> state" where
  "recomplete cb tag m [] st = (None, st)"
| "recomplete cb tag m (CallNext # calls) st = recomplete cb tag m calls (cb m st)"
| "recomplete cb tag m (CallReply err content # calls) st =
     (case callReply tag (msg_reply m) err content st of
        (None, st1) \<Rightarrow> recomplete cb tag m calls st1
      | (Some e, st1) \<Rightarrow> (Some e, st1))"

definition withCompletion ::
  "(msg \<Rightarrow> state \<Rightarrow> state) \<Rightarrow> nat option \<Rightarrow> chain \<times> msg \<times> mw_action list \<times> state
     \<Rightarrow> jserror option \<times> state" where
  "withCompletion cb tag r =
     (case r of
        (Completed, m, calls, st) \<Rightarrow> recomplete cb tag m (CallNext # calls) st
      | (Stopped, m, calls, st) \<Rightarrow> (None, st)
      | (Threw e, m, calls, st) \<Rightarrow> (Some e, st))"

section \<open>Sending\<close>

definition deref :: "state \<Rightarrow> nat \<Rightarrow> request option" where
  "deref st a = (if a < length (heap st) then Some (heap st ! a) else None)"

text \<open>\<^verbatim>\<open>Date.now() < (req.date + req.timeout)\<close>, for the integer timeout a validated request has.\<close>

definition beforeDeadline :: "env \<Rightarrow> request \<Rightarrow> bool" where
  "beforeDeadline env req =
     (case r_timeout req of JNum n \<Rightarrow> e_now env < r_date req + n | _ \<Rightarrow> False)"

definition onDrop :: "env \<Rightarrow> nat \<Rightarrow> state \<Rightarrow> state" where
  "onDrop env a st =
     (case deref st a of
        None \<Rightarrow> st
      | Some req \<Rightarrow>
          (let st1 = makeLog ''trace'' ''hub-26'' st
           in if beforeDeadline env req
              then setTimeout (TRetry a) (property st1 ''retry delay'') (makeLog ''trace'' ''hub-27'' st1)
              else makeLog ''trace'' ''hub-28'' st1))"

text \<open>The callback that \<^verbatim>\<open>internalSend(req)\<close> passes to \<^verbatim>\<open>searchActor\<close>, called with the AID found.\<close>

definition onFound :: "env \<Rightarrow> nat \<Rightarrow> string \<Rightarrow> state \<Rightarrow> state" where
  "onFound env a aid st =
     (case deref st a of
        None \<Rightarrow> st
      | Some req \<Rightarrow>
          if beforeDeadline env req then
            (case actors_get (registry st) aid None of
               None \<Rightarrow> onDrop env a st
             | Some actor \<Rightarrow>
                 (let req1 = req\<lparr>r_to := aid\<rparr>;
                      st1 = st\<lparr>heap := (heap st)[a := req1]\<rparr>
                  in case a_scope actor of
                       PROCESS \<Rightarrow> eff (InprocSend req1) (makeLog ''trace'' ''hub-2'' st1)
                     | LOCAL \<Rightarrow> eff (RemoteSend (a_container actor) req1) (makeLog ''trace'' ''hub-15'' st1)
                     | REMOTE \<Rightarrow> eff (RemoteSend (a_container actor) req1) (makeLog ''trace'' ''hub-15'' st1)))
          else st)"

text \<open>
  \<^verbatim>\<open>events.emit(name + '!found', aid)\<close>: the listeners registered for the name when the
  event is emitted are called in order; each is one-shot and is removed before it runs.
\<close>

fun isFoundL :: "string \<Rightarrow> listener \<Rightarrow> bool" where
  "isFoundL name (FoundL n a) = (n = name)"
| "isFoundL name l = False"

fun fireFound :: "env \<Rightarrow> listener list \<Rightarrow> string \<Rightarrow> state \<Rightarrow> state" where
  "fireFound env [] aid st = st"
| "fireFound env (FoundL n a # ls) aid st =
     fireFound env ls aid (onFound env a aid (st\<lparr>listeners := remove1 (FoundL n a) (listeners st)\<rparr>))"
| "fireFound env (l # ls) aid st = fireFound env ls aid st"

definition emitFound :: "env \<Rightarrow> string \<Rightarrow> string \<Rightarrow> state \<Rightarrow> state" where
  "emitFound env name aid st = fireFound env (filter (isFoundL name) (listeners st)) aid st"

definition searchActor :: "env \<Rightarrow> string \<Rightarrow> nat \<Rightarrow> state \<Rightarrow> state" where
  "searchActor env aid a st =
     (let st1 = makeLog ''trace'' ''hub-20'' st;
          st2 = st1\<lparr>listeners := listeners st1 @ [FoundL aid a]\<rparr>;
          st3 = (case actors_pick (registry st2) aid of
                   None \<Rightarrow> st2
                 | Some cacheAid \<Rightarrow>
                     if cacheAid \<noteq> [] then emitFound env aid cacheAid (makeLog ''trace'' ''hub-42'' st2)
                     else st2)
      in eff (NotifySearched aid) st3)"

definition internalSend :: "env \<Rightarrow> nat \<Rightarrow> state \<Rightarrow> state" where
  "internalSend env a st =
     (case deref st a of None \<Rightarrow> st | Some req \<Rightarrow> searchActor env (r_to req) a st)"

section \<open>Responses and drops\<close>

text \<open>The completion callback of \<^verbatim>\<open>onRes\<close>: the deferred call of the sender's callback.\<close>

fun deferCallback :: "nat \<Rightarrow> jsval \<Rightarrow> msg \<Rightarrow> state \<Rightarrow> state" where
  "deferCallback a cb (MRes res) st = setImmediate (TCallback a cb res) st"
| "deferCallback a cb (MReq r) st = st"

definition onRes :: "nat \<Rightarrow> response \<Rightarrow> jsval \<Rightarrow> state \<Rightarrow> jserror option \<times> state" where
  "onRes a res cb st =
     withCompletion (deferCallback a cb) (Some a)
       (processMiddlewares RES_IN (MRes res) JNull (Some a) (makeLog ''trace'' ''hub-25'' st))"

fun isResL :: "string \<Rightarrow> listener \<Rightarrow> bool" where
  "isResL i (ResL j a cb) = (j = i)"
| "isResL i l = False"

text \<open>
  \<^verbatim>\<open>events.emit('res|' + id, res)\<close>: each listener is one-shot, removed before it runs; an
  exception of a listener leaves the emitter and the remaining listeners are not called.
\<close>

fun fireRes :: "listener list \<Rightarrow> response \<Rightarrow> state \<Rightarrow> jserror option \<times> state" where
  "fireRes [] res st = (None, st)"
| "fireRes (ResL i a cb # ls) res st =
     (case onRes a res cb (st\<lparr>listeners := remove1 (ResL i a cb) (listeners st)\<rparr>) of
        (None, st1) \<Rightarrow> fireRes ls res st1
      | (Some e, st1) \<Rightarrow> (Some e, st1))"
| "fireRes (l # ls) res st = fireRes ls res st"

definition emitRes :: "string \<Rightarrow> response \<Rightarrow> state \<Rightarrow> jserror option \<times> state" where
  "emitRes i res st = fireRes (filter (isResL i) (listeners st)) res st"

fun isDropL :: "string \<Rightarrow> listener \<Rightarrow> bool" where
  "isDropL i (DropL j a) = (j = i)"
| "isDropL i l = False"

text \<open>\<^verbatim>\<open>events.emit('drop|' + id, req)\<close>: the listeners stay registered and ignore the argument.\<close>

fun fireDrop :: "env \<Rightarrow> listener list \<Rightarrow> state \<Rightarrow> state" where
  "fireDrop env [] st = st"
| "fireDrop env (DropL i a # ls) st = fireDrop env ls (onDrop env a st)"
| "fireDrop env (l # ls) st = fireDrop env ls st"

definition emitDrop :: "env \<Rightarrow> string \<Rightarrow> state \<Rightarrow> state" where
  "emitDrop env i st = fireDrop env (filter (isDropL i) (listeners st)) st"

definition removeAllDropListeners :: "string \<Rightarrow> state \<Rightarrow> state" where
  "removeAllDropListeners i st = st\<lparr>listeners := filter (\<lambda>l. \<not> isDropL i l) (listeners st)\<rparr>"

section \<open>The public operation \<^verbatim>\<open>send\<close>\<close>

text \<open>The three overloads of the arguments \<^verbatim>\<open>timeout\<close>, \<^verbatim>\<open>cb\<close> and \<^verbatim>\<open>headers\<close>.\<close>

definition normalise :: "state \<Rightarrow> sendArgs \<Rightarrow> sendArgs" where
  "normalise st x =
     (if isFunction (q_timeout x) then
        x\<lparr>q_headers := q_cb x, q_cb := q_timeout x,
          q_timeout := property st ''default send timeout''\<rparr>
      else if isObject (q_timeout x) then
        x\<lparr>q_headers := q_timeout x, q_timeout := property st ''default send timeout''\<rparr>
      else if \<not> isFunction (q_cb x) then
        x\<lparr>q_headers := q_cb x, q_cb := JNull\<rparr>
      else x)"

text \<open>The request object that \<^verbatim>\<open>send\<close> builds from the normalised arguments.\<close>

definition buildReq :: "env \<Rightarrow> state \<Rightarrow> sendArgs \<Rightarrow> request" where
  "buildReq env st x =
     \<lparr> r_from = q_from x, r_to = q_to x, r_content = q_content x,
       r_id = e_uuid env, r_date = e_now env,
       r_headers = (if truthy (q_headers x) then q_headers x else JObj []),
       r_timeout = (if truthy (q_timeout x) then q_timeout x
                    else property st ''max send timeout''),
       r_cb = truthy (q_cb x), r_reply = JUndefined \<rparr>"

text \<open>
  The request object of \<^verbatim>\<open>send\<close> lives in the store: \<^verbatim>\<open>msg.reply = reply\<close> and
  \<^verbatim>\<open>delete msg.reply\<close> of its chain are writes to the object at its address.
\<close>

definition setReplyAt :: "nat \<Rightarrow> jsval \<Rightarrow> state \<Rightarrow> state" where
  "setReplyAt a v st =
     (if a < length (heap st) then st\<lparr>heap := (heap st)[a := (heap st ! a)\<lparr>r_reply := v\<rparr>]\<rparr>
      else st)"

text \<open>
  The callback that \<^verbatim>\<open>send\<close> gives to the REQ_OUT chain: with a callback it registers the
  one-shot response listener and the drop listener and arms the timeout; then it calls
  \<^verbatim>\<open>internalSend(req)\<close>. All closures share the request object at address \<open>a\<close>.
\<close>

definition afterReqOut :: "env \<Rightarrow> nat \<Rightarrow> jsval \<Rightarrow> state \<Rightarrow> state" where
  "afterReqOut env a cb st =
     (case deref st a of
        None \<Rightarrow> st
      | Some req \<Rightarrow>
          (let st1 = (if truthy cb then
                        setTimeout (TTimeout a) (r_timeout req)
                          (st\<lparr>listeners := listeners st @ [ResL (r_id req) a cb, DropL (r_id req) a]\<rparr>)
                      else st)
           in internalSend env a st1))"

definition uncaught :: "jserror option \<times> state \<Rightarrow> state" where
  "uncaught r = (case r of (None, st) \<Rightarrow> st | (Some e, st) \<Rightarrow> eff (Thrown e) st)"

definition send :: "env \<Rightarrow> sendArgs \<Rightarrow> state \<Rightarrow> state" where
  "send env args st =
     (let x = normalise st args
      in if started st then
           (let a = length (heap st);
                req = buildReq env st x;
                cb = q_cb x;
                st0 = st\<lparr>heap := heap st @ [req]\<rparr>
            in if \<not> validate_message req \<or> (truthy cb \<and> \<not> isFunction cb) then
                 (let st1 = makeLog ''warn'' ''hub-29'' st0
                  in if truthy cb then callFn (Some a) cb [AVal (techerr ''hub-29'')] st1 else st1)
               else
                 uncaught
                   (withCompletion (\<lambda>m s. afterReqOut env a cb (setReplyAt a JUndefined s)) (Some a)
                      (processMiddlewares REQ_OUT (MReq req) cb (Some a) (setReplyAt a cb st0))))
         else
           (makeLog ''trace'' ''hub-46'' st)\<lparr>startingQueue := startingQueue st @ [x]\<rparr>)"

text \<open>
  \<^verbatim>\<open>processStartingQueue\<close>: \<^verbatim>\<open>_.forEach\<close> schedules one \<^verbatim>\<open>setImmediate(exports.send, ...)\<close>
  for each entry, front to back; then the queue is replaced by an empty one.
\<close>

definition processStartingQueue :: "state \<Rightarrow> state" where
  "processStartingQueue st =
     (let st1 = makeLog ''trace'' ''hub-19'' st;
          st2 = fold (\<lambda>req. setImmediate (TSend req)) (startingQueue st1) st1
      in st2\<lparr>startingQueue := []\<rparr>)"

section \<open>Incoming requests\<close>

text \<open>
  The function that \<^verbatim>\<open>onReq\<close> installs as \<^verbatim>\<open>req.reply\<close> before it calls the handler: it
  builds the response, runs the RES_OUT chain with no reply function and then calls the
  transport's \<^verbatim>\<open>reply\<close>.
\<close>

fun transportReply :: "msg \<Rightarrow> state \<Rightarrow> state" where
  "transportReply (MRes res) st = eff (TransportReply res) st"
| "transportReply (MReq r) st = st"

definition reqReply :: "actor \<Rightarrow> request \<Rightarrow> jsval \<Rightarrow> jsval \<Rightarrow> state \<Rightarrow> jserror option \<times> state" where
  "reqReply ac req err content st =
     (let res = \<lparr> s_from = JStr (a_id ac), s_to = JStr (r_from req), s_err = err,
                  s_content = content, s_date = JNum (r_date req), s_id = r_id req,
                  s_headers = r_headers req, s_reply = JUndefined \<rparr>
      in withCompletion transportReply None
           (processMiddlewares RES_OUT (MRes res) JNull None (makeLog ''trace'' ''hub-34'' st)))"

text \<open>The calls of \<^verbatim>\<open>req.reply\<close> that the handler makes; an exception ends the handler.\<close>

fun replies :: "actor \<Rightarrow> request \<Rightarrow> (jsval \<times> jsval) list \<Rightarrow> state \<Rightarrow> jserror option \<times> state" where
  "replies ac req [] st = (None, st)"
| "replies ac req ((err, content) # rs) st =
     (case reqReply ac req err content st of
        (None, st1) \<Rightarrow> replies ac req rs st1
      | (Some e, st1) \<Rightarrow> (Some e, st1))"

text \<open>
  The deferred dispatch of \<^verbatim>\<open>onReq\<close>: inside \<^verbatim>\<open>try\<close>, \<^verbatim>\<open>req.reply\<close> is set and
  \<^verbatim>\<open>actor.onMessage(req)\<close> is called; every exception is caught and logged.
\<close>

definition dispatch :: "request \<Rightarrow> actor option \<Rightarrow> state \<Rightarrow> state" where
  "dispatch req actor st =
     (case actor of
        None \<Rightarrow> makeLog ''warn'' ''hub-30'' st
      | Some ac \<Rightarrow>
          (let req1 = req\<lparr>r_reply := JFun ReqReply\<rparr>;
               st1 = eff (HandlerCalled (a_id ac) req1) st
           in case a_onMessage ac req1 of
                Returns rs \<Rightarrow>
                  (case replies ac req1 rs st1 of
                     (None, st2) \<Rightarrow> st2
                   | (Some e, st2) \<Rightarrow> makeLog ''warn'' ''hub-30'' st2)
              | Throws rs \<Rightarrow> makeLog ''warn'' ''hub-30'' (snd (replies ac req1 rs st1))))"

fun deferHandler :: "actor option \<Rightarrow> msg \<Rightarrow> state \<Rightarrow> state" where
  "deferHandler actor (MReq req) st = setImmediate (THandler req actor) st"
| "deferHandler actor (MRes s) st = st"

definition onReq :: "request \<Rightarrow> state \<Rightarrow> state" where
  "onReq req st =
     (let st0 = makeLog ''trace'' ''hub-3'' st;
          actor = actors_get (registry st0) (r_to req) (Some PROCESS);
          mReply = JFun (MReply (map_option a_id actor))
      in uncaught
           (withCompletion (deferHandler actor) None
              (processMiddlewares REQ_IN (MReq req) mReply None st0)))"

section \<open>Deferred closures\<close>

definition timeoutRes :: "string \<Rightarrow> response" where
  "timeoutRes i =
     \<lparr> s_from = JUndefined, s_to = JUndefined, s_err = JObj [(''code'', JStr ''TIMEOUT'')],
       s_content = JUndefined, s_date = JUndefined, s_id = i, s_headers = JUndefined,
       s_reply = JUndefined \<rparr>"

definition runTask :: "env \<Rightarrow> task \<Rightarrow> state \<Rightarrow> state" where
  "runTask env t st =
     (case t of
        TCall cb \<Rightarrow> callFn None cb [] st
      | TProcessStartingQueue \<Rightarrow> processStartingQueue st
      | TSend args \<Rightarrow> send env args st
      | THandler req actor \<Rightarrow> dispatch req actor st
      | TCallback a cb res \<Rightarrow>
          (if truthy cb then
             (if isFunction cb then eff (Call (Some a) cb [AVal (s_err res), ARes res]) st
              else makeLog ''warn'' ''hub-31'' st)
           else st)
      | TTimeout a \<Rightarrow>
          (case deref st a of
             None \<Rightarrow> st
           | Some req \<Rightarrow>
               (case emitRes (r_id req) (timeoutRes (r_id req)) st of
                  (None, st1) \<Rightarrow> removeAllDropListeners (r_id req) st1
                | (Some e, st1) \<Rightarrow> eff (Thrown e) st1))
      | TRetry a \<Rightarrow> internalSend env a st)"

section \<open>Lifecycle\<close>

definition start :: "jsval \<Rightarrow> jsval \<Rightarrow> state \<Rightarrow> state" where
  "start params0 cb0 st =
     (if locked st \<or> started st then makeLog ''warn'' ''hub-17'' st
      else
        (let cb = (if isFunction params0 then params0 else cb0);
             params1 = (if isFunction params0 then JNull else params0);
             st1 = makeLog ''trace'' ''hub-16'' (st\<lparr>locked := True\<rparr>);
             params = (if truthy params1 then params1 else JObj [])
         in if \<not> validate_startParams params then
              (let st2 = makeLog ''warn'' ''hub-43'' st1
               in if truthy cb then callFn None cb [AVal (techerr ''hub-43'')] st2 else st2)
            else
              (let st2 = (if truthy (getProp params ''ip'')
                          then st1\<lparr>netIp := getProp params ''ip''\<rparr> else st1)
               in (eff RemoteStart st2)\<lparr>pending := pending st2 @ [KRemoteStarted params cb]\<rparr>)))"

definition stop :: "jsval \<Rightarrow> state \<Rightarrow> state" where
  "stop cb st =
     (if locked st \<or> \<not> started st then makeLog ''warn'' ''hub-37'' st
      else
        (let st1 = makeLog ''trace'' ''hub-16'' (st\<lparr>locked := True\<rparr>);
             st2 = eff RemoteStop (eff DiscoveryStop st1)
         in st2\<lparr>pending := pending st2 @ [KRemoteStopped cb]\<rparr>))"

text \<open>The transport or discovery calls back one of the callbacks it was given.\<close>

definition complete :: "cont \<Rightarrow> state \<Rightarrow> state" where
  "complete k st =
     (case k of
        KRemoteStarted params cb \<Rightarrow>
          (eff (DiscoveryStart (getProp params ''discoveryAddr'') (getProp params ''discoveryPort'')) st)
            \<lparr>pending := pending st @ [KDiscoveryStarted cb]\<rparr>
      | KDiscoveryStarted cb \<Rightarrow>
          (let st1 = makeLog ''info'' ''hub-18'' (st\<lparr>started := True, locked := False\<rparr>);
               st2 = (if truthy cb then setImmediate (TCall cb) st1 else st1)
           in setImmediate TProcessStartingQueue st2)
      | KRemoteStopped cb \<Rightarrow>
          (let st1 = (makeLog ''info'' ''hub-36'' st)\<lparr>started := False, locked := False\<rparr>
           in if isFunction cb then setImmediate (TCall cb) st1 else st1))"

section \<open>Middlewares, properties and actors\<close>

definition use :: "middleware \<Rightarrow> state \<Rightarrow> state" where
  "use fn st = st\<lparr>middlewares := middlewares st @ [fn]\<rparr>"

text \<open>
  \<^verbatim>\<open>set(key, value)\<close>. The condition of the source is the assignment
  \<^verbatim>\<open>key = 'discoveryAddrs'\<close>: it stores the string in \<^verbatim>\<open>key\<close> and tests its truthiness.
\<close>

definition set_property :: "jsval \<Rightarrow> jsval \<Rightarrow> state \<Rightarrow> state" where
  "set_property key0 v st =
     (if \<not> isString key0 then st
      else
        (let key = JStr ''discoveryAddrs''
         in if truthy key then eff (DiscoverySetAddrs v) st
            else (case key of
                    JStr k \<Rightarrow> st\<lparr>properties := (properties st)(k \<mapsto> v)\<rparr>
                  | _ \<Rightarrow> st)))"

text \<open>The listeners that the container registers on the registry's events.\<close>

definition onActorAdded :: "env \<Rightarrow> string \<Rightarrow> scope \<Rightarrow> state \<Rightarrow> state" where
  "onActorAdded env aid sc st =
     eff (FacadeEmit ''actor added'' [EStr aid, EScope sc])
       (emitFound env (aid_bare aid) aid (emitFound env aid aid st))"

definition onActorRemoved :: "string \<Rightarrow> state \<Rightarrow> state" where
  "onActorRemoved aid st = eff (FacadeEmit ''actor removed'' []) st"

text \<open>
  Modelled from the spec: the updates of the actor registry \<^verbatim>\<open>actors\<close>. \<^verbatim>\<open>add\<close> replaces an
  actor with the same full AID in the same scope and emits \<^verbatim>\<open>actor added(aid, scope)\<close>;
  \<^verbatim>\<open>remove\<close> removes and emits \<^verbatim>\<open>actor removed(aid)\<close>, here when an entry was removed.
\<close>

definition actors_add :: "env \<Rightarrow> actor \<Rightarrow> scope \<Rightarrow> state \<Rightarrow> state" where
  "actors_add env ac sc st =
     onActorAdded env (a_id ac) sc
       (st\<lparr>registry := filter (\<lambda>b. \<not> (a_id b = a_id ac \<and> a_scope b = sc)) (registry st)
                         @ [ac\<lparr>a_scope := sc\<rparr>]\<rparr>)"

definition actors_remove :: "string \<Rightarrow> scope \<Rightarrow> state \<Rightarrow> state" where
  "actors_remove aid sc st =
     (case actors_get (registry st) aid (Some sc) of
        None \<Rightarrow> st
      | Some ac \<Rightarrow>
          onActorRemoved aid
            (st\<lparr>registry := filter (\<lambda>b. \<not> (a_id b = aid \<and> a_scope b = sc)) (registry st)\<rparr>))"

definition addActor :: "env \<Rightarrow> string \<Rightarrow> (request \<Rightarrow> handler_outcome) \<Rightarrow> state \<Rightarrow> state" where
  "addActor env aid0 onMessage st =
     (if \<not> aid_isValid aid0 then makeLog ''warn'' ''hub-1'' st
      else
        (let aid = (if aid_isBare aid0 then aid0 @ ''/'' @ e_uuid env else aid0);
             ac = \<lparr> a_id = aid, a_scope = PROCESS, a_container = containerId st,
                    a_onMessage = onMessage \<rparr>
         in actors_add env ac PROCESS st))"

definition removeActor :: "string \<Rightarrow> state \<Rightarrow> state" where
  "removeActor aid st =
     (if \<not> aid_isValid aid then makeLog ''warn'' ''hub-4'' st
      else actors_remove aid PROCESS st)"

section \<open>The container as a machine\<close>

text \<open>
  One turn of the event loop: a call of the public interface, a callback from a transport
  or from discovery, a change of the registry, the next immediate, or a timer that fires.
  A callback can only complete if it was handed out and has not completed yet.
\<close>

datatype event =
    ApiStart jsval jsval
  | ApiStop jsval
  | ApiSend sendArgs
  | ApiUse middleware
  | ApiSet jsval jsval
  | ApiAddActor string "request \<Rightarrow> handler_outcome"
  | ApiRemoveActor string
  | Completes cont
  | IncomingReq request
  | IncomingRes response
  | Dropped request
  | Discovered actor
  | Departed string scope
  | NextImmediate
  | TimerFires nat

definition step :: "env \<Rightarrow> event \<Rightarrow> state \<Rightarrow> state" where
  "step env ev st =
     (case ev of
        ApiStart params cb \<Rightarrow> start params cb st
      | ApiStop cb \<Rightarrow> stop cb st
      | ApiSend args \<Rightarrow> send env args st
      | ApiUse fn \<Rightarrow> use fn st
      | ApiSet key v \<Rightarrow> set_property key v st
      | ApiAddActor aid h \<Rightarrow> addActor env aid h st
      | ApiRemoveActor aid \<Rightarrow> removeActor aid st
      | Completes k \<Rightarrow>
          (if k \<in> set (pending st) then complete k (st\<lparr>pending := remove1 k (pending st)\<rparr>) else st)
      | IncomingReq req \<Rightarrow> onReq req st
      | IncomingRes res \<Rightarrow>
          (case emitRes (s_id res) res st of
             (None, st1) \<Rightarrow> st1
           | (Some e, st1) \<Rightarrow> eff (Thrown e) st1)
      | Dropped req \<Rightarrow> emitDrop env (r_id req) st
      | Discovered ac \<Rightarrow> actors_add env ac (a_scope ac) st
      | Departed aid sc \<Rightarrow> actors_remove aid sc st
      | NextImmediate \<Rightarrow>
          (case immediates st of
             [] \<Rightarrow> st
           | t # ts \<Rightarrow> runTask env t (st\<lparr>immediates := ts\<rparr>))
      | TimerFires i \<Rightarrow>
          (if i < length (timers st)
           then runTask env (snd (timers st ! i)) (st\<lparr>timers := take i (timers st) @ drop (Suc i) (timers st)\<rparr>)
           else st))"

fun run :: "(env \<times> event) list \<Rightarrow> state \<Rightarrow> state" where
  "run [] st = st"
| "run ((env, ev) # evs) st = run evs (step env ev st)"

text \<open>
  The calls of the public interface other than \<^verbatim>\<open>start\<close> and \<^verbatim>\<open>stop\<close>, and the arguments
  of a call of \<^verbatim>\<open>send\<close>.
\<close>

fun isCall :: "event \<Rightarrow> bool" where
  "isCall (ApiSend x) = True"
| "isCall (ApiUse f) = True"
| "isCall (ApiSet k v) = True"
| "isCall (ApiAddActor aid h) = True"
| "isCall (ApiRemoveActor aid) = True"
| "isCall ev = False"

fun sent :: "event \<Rightarrow> sendArgs list" where
  "sent (ApiSend x) = [x]"
| "sent ev = []"

section \<open>Concrete inputs\<close>

definition env0 :: env where
  "env0 = \<lparr>e_uuid = ''u1'', e_now = 1000\<rparr>"

definition env1 :: env where
  "env1 = \<lparr>e_uuid = ''u2'', e_now = 1005\<rparr>"

definition running :: state where
  "running = init\<lparr>started := True\<rparr>"

definition pongRemote :: actor where
  "pongRemote = \<lparr>a_id = ''pong/1'', a_scope = REMOTE, a_container = ''c2'',
     a_onMessage = (\<lambda>r. Returns [])\<rparr>"

definition pongHere :: actor where
  "pongHere = \<lparr>a_id = ''pong/1'', a_scope = PROCESS, a_container = ''container'',
     a_onMessage = (\<lambda>r. Returns [(JNull, JStr ''pong'')])\<rparr>"

text \<open>\<^verbatim>\<open>send('ping', 'pong', content, t, cb)\<close> with a user function \<^verbatim>\<open>cb\<close>.\<close>

definition askPong :: "string \<Rightarrow> jsval \<Rightarrow> sendArgs" where
  "askPong content t = \<lparr>q_from = ''ping'', q_to = ''pong'', q_content = JStr content,
     q_timeout = t, q_cb = JFun (UserFn 1), q_headers = JUndefined\<rparr>"

text \<open>A middleware that answers every incoming request itself and does not call \<^verbatim>\<open>next\<close>.\<close>

definition forbid :: middleware where
  "forbid t m =
     (if t = REQ_IN then [CallReply (JObj [(''code'', JStr ''FORBIDDEN'')]) JUndefined]
      else [CallNext])"

definition pingReq :: request where
  "pingReq = \<lparr>r_from = ''ping/7'', r_to = ''pong/1'', r_content = JStr ''ping'', r_id = ''u1'',
     r_date = 1000, r_headers = JObj [], r_timeout = JNum 30000, r_cb = True,
     r_reply = JUndefined\<rparr>"

text \<open>
  A remote actor \<^verbatim>\<open>pong/1\<close> is known, a request is sent to the bare target \<^verbatim>\<open>pong\<close>, the
  remote transport drops it 5 ms later, and the retry timer fires.
\<close>

definition dropScenario :: "(env \<times> event) list" where
  "dropScenario =
     [(env0, Discovered pongRemote), (env0, ApiSend (askPong ''ping'' (JNum 5000))),
      (env1, Dropped (pingReq\<lparr>r_to := ''pong/1''\<rparr>)), (env1, TimerFires 1)]"

fun searched :: "effect \<Rightarrow> bool" where
  "searched (NotifySearched aid) = True"
| "searched e = False"

text \<open>The container is started with no parameters and stopped again.\<close>

definition startThenStop :: "(env \<times> event) list" where
  "startThenStop =
     [(env0, ApiStart (JObj []) JUndefined),
      (env0, Completes (KRemoteStarted (JObj []) JUndefined)),
      (env0, Completes (KDiscoveryStarted JUndefined)), (env0, NextImmediate),
      (env0, ApiStop JUndefined), (env0, Completes (KRemoteStopped JUndefined))]"

text \<open>Three sends with distinct contents, made before the start of the container completes.\<close>

definition threeSends :: "(env \<times> sendArgs) list" where
  "threeSends =
     [(env0, askPong ''one'' (JNum 5000)), (env0, askPong ''two'' (JNum 5000)),
      (env1, askPong ''three'' (JNum 5000))]"

text \<open>
  One send is queued, the container is started, and it is stopped again before the
  immediate of \<^verbatim>\<open>processStartingQueue\<close> runs; then that immediate runs. \<open>startAgain\<close> starts
  the container once more and runs the immediate of the second drain.
\<close>

definition stopBeforeDrain :: "(env \<times> event) list" where
  "stopBeforeDrain =
     [(env0, ApiSend (askPong ''one'' (JNum 5000))),
      (env0, ApiStart (JObj []) JUndefined),
      (env0, Completes (KRemoteStarted (JObj []) JUndefined)),
      (env0, Completes (KDiscoveryStarted JUndefined)),
      (env0, ApiStop JUndefined), (env0, Completes (KRemoteStopped JUndefined)),
      (env0, NextImmediate)]"

definition startAgain :: "(env \<times> event) list" where
  "startAgain =
     [(env1, ApiStart (JObj []) JUndefined),
      (env1, Completes (KRemoteStarted (JObj []) JUndefined)),
      (env1, Completes (KDiscoveryStarted JUndefined)), (env1, NextImmediate)]"



section \<open>Observations of the state\<close>

text \<open>
  The parts of the state that the invariants below speak about: the lifecycle flags with
  the callbacks handed out (\<open>life\<close>); the response listeners, the deferred calls of a
  sender's callback, the calls of callbacks already made and the size of the store
  (\<open>cbview\<close>); the calls of middlewares (\<open>mwview\<close>).
\<close>

fun isRes :: "listener \<Rightarrow> bool" where
  "isRes (ResL i a cb) = True"
| "isRes l = False"

fun isCb :: "task \<Rightarrow> bool" where
  "isCb (TCallback a cb res) = True"
| "isCb t = False"

fun isTagged :: "effect \<Rightarrow> bool" where
  "isTagged (Call (Some a) f args) = True"
| "isTagged e = False"

fun isMw :: "effect \<Rightarrow> bool" where
  "isMw (MwCalled t m) = True"
| "isMw e = False"

definition life :: "state \<Rightarrow> bool \<times> bool \<times> cont list" where
  "life st = (started st, locked st, pending st)"

definition cbview :: "state \<Rightarrow> listener list \<times> task list \<times> task list \<times> effect list \<times> nat" where
  "cbview st = (filter isRes (listeners st), filter isCb (immediates st),
     filter isCb (map snd (timers st)), filter isTagged (effects st), length (heap st))"

definition mwview :: "state \<Rightarrow> effect list" where
  "mwview st = filter isMw (effects st)"



text \<open>
  The exposure of \<^verbatim>\<open>msg.reply\<close> to the middlewares. \<open>replyAsClaimed\<close> is the property as the
  specification words it: callable exactly for REQ_IN and RES_OUT. \<open>mwOk\<close> is what the
  call sites of \<^verbatim>\<open>processMiddlewares\<close> establish: for REQ_OUT the reply is the sender's
  callback, callable exactly when the request expects an answer; for REQ_IN it is
  callable; for RES_OUT and RES_IN it is \<^verbatim>\<open>null\<close>.
\<close>

fun mwOk :: "effect \<Rightarrow> bool" where
  "mwOk (MwCalled REQ_OUT (MReq r)) = (isFunction (r_reply r) = r_cb r)"
| "mwOk (MwCalled REQ_OUT (MRes s)) = False"
| "mwOk (MwCalled REQ_IN m) = isFunction (msg_reply m)"
| "mwOk (MwCalled RES_OUT m) = (msg_reply m = JNull)"
| "mwOk (MwCalled RES_IN m) = (msg_reply m = JNull)"
| "mwOk e = True"

definition mwsOk :: "state \<Rightarrow> bool" where
  "mwsOk st = list_all mwOk (filter isMw (effects st))"



definition passThrough :: middleware where
  "passThrough t m = [CallNext]"


definition pongRes :: response where
  "pongRes = \<lparr>s_from = JStr ''pong/1'', s_to = JStr ''ping'', s_err = JNull,
     s_content = JStr ''pong'', s_date = JNum 1000, s_id = ''u1'', s_headers = JObj [],
     s_reply = JUndefined\<rparr>"


text \<open>
  The callback of the request at address \<open>a\<close> can be reached in three ways: through its
  response listener, through a deferred call already scheduled by \<^verbatim>\<open>onRes\<close>, or it has been
  called. \<open>uses\<close> counts all three; \<open>atMostOnce\<close> says that for every request created so
  far the count is at most one, for every address not yet used it is zero, and that no
  deferred call of a callback sits among the timers.
\<close>

fun resFor :: "nat \<Rightarrow> listener \<Rightarrow> bool" where
  "resFor a (ResL i b cb) = (a = b)"
| "resFor a l = False"

fun cbFor :: "nat \<Rightarrow> task \<Rightarrow> bool" where
  "cbFor a (TCallback b cb res) = (a = b)"
| "cbFor a t = False"

fun callFor :: "nat \<Rightarrow> effect \<Rightarrow> bool" where
  "callFor a (Call (Some b) f args) = (a = b)"
| "callFor a e = False"

definition uses :: "nat \<Rightarrow> state \<Rightarrow> nat" where
  "uses a st =
     length (filter (resFor a) (filter isRes (listeners st))) +
     length (filter (cbFor a) (filter isCb (immediates st))) +
     length (filter (callFor a) (filter isTagged (effects st)))"

definition atMostOnce :: "state \<Rightarrow> bool" where
  "atMostOnce st =
     ((\<forall>a. uses a st \<le> (if a < length (heap st) then 1 else 0)) \<and>
      filter isCb (map snd (timers st)) = [])"

text \<open>
  A response arrives for a request sent with a callback, and the timeout of the request
  fires before the deferred call of the callback has run; a middleware that only calls
  \<^verbatim>\<open>next\<close> is registered.
\<close>

definition race :: "(env \<times> event) list" where
  "race =
     [(env0, ApiUse passThrough), (env0, ApiStart (JObj []) JUndefined),
      (env0, Completes (KRemoteStarted (JObj []) JUndefined)),
      (env0, Completes (KDiscoveryStarted JUndefined)), (env0, NextImmediate),
      (env0, Discovered pongRemote), (env0, ApiSend (askPong ''ping'' (JNum 5000))),
      (env1, IncomingRes pongRes), (env1, TimerFires 0),
      (env1, NextImmediate), (env1, NextImmediate)]"

text \<open>
  A middleware is orderly when, for an incoming response, it calls \<^verbatim>\<open>next\<close> at most once
  and, for an outgoing request, it makes at most one call: \<^verbatim>\<open>next\<close>, or \<^verbatim>\<open>msg.reply\<close>
  (which then is the sender's callback), and not both. \<open>registers\<close> gives the middleware
  that an event adds to the chain.
\<close>

fun isNext :: "mw_action \<Rightarrow> bool" where
  "isNext CallNext = True"
| "isNext (CallReply err content) = False"

definition nexts :: "mw_action list \<Rightarrow> nat" where
  "nexts calls = length (filter isNext calls)"

definition orderly :: "middleware \<Rightarrow> bool" where
  "orderly f = (\<forall>m. length (f REQ_OUT m) \<le> 1 \<and> nexts (f RES_IN m) \<le> 1)"

fun registers :: "event \<Rightarrow> middleware list" where
  "registers (ApiUse f) = [f]"
| "registers ev = []"

text \<open>
  Two middlewares that are not orderly: one calls \<^verbatim>\<open>next\<close> twice for an incoming response,
  the other answers an outgoing request through \<^verbatim>\<open>msg.reply\<close> and then calls \<^verbatim>\<open>next\<close>. In
  \<open>answered f\<close> the middleware \<open>f\<close> is registered, a request is sent with a callback to
  a remote actor, the response arrives, and two immediates run.
\<close>

definition twiceOnResponse :: middleware where
  "twiceOnResponse t m = (if t = RES_IN then [CallNext, CallNext] else [CallNext])"

definition replyThenNext :: middleware where
  "replyThenNext t m =
     (if t = REQ_OUT then [CallReply JNull (JStr ''cached''), CallNext] else [CallNext])"

definition answered :: "middleware \<Rightarrow> (env \<times> event) list" where
  "answered f =
     [(env0, ApiUse f), (env0, ApiStart (JObj []) JUndefined),
      (env0, Completes (KRemoteStarted (JObj []) JUndefined)),
      (env0, Completes (KDiscoveryStarted JUndefined)), (env0, NextImmediate),
      (env0, Discovered pongRemote), (env0, ApiSend (askPong ''ping'' (JNum 5000))),
      (env1, IncomingRes pongRes), (env1, NextImmediate), (env1, NextImmediate)]"

section \<open>Basic facts\<close>

lemmas basics = eff_def makeLog_def setImmediate_def setTimeout_def callFn_def property_def
  deref_def beforeDeadline_def

lemma normalise_frame [simp]:
  "normalise (st\<lparr>startingQueue := q\<rparr>) = normalise st"
  "normalise (st\<lparr>effects := es\<rparr>) = normalise st"
  "normalise (st\<lparr>immediates := ts\<rparr>) = normalise st"
  by (simp_all add: normalise_def property_def fun_eq_iff)

lemma fold_setImmediate:
  "fold (\<lambda>r. setImmediate (TSend r)) q st = st\<lparr>immediates := immediates st @ map TSend q\<rparr>"
  by (induction q arbitrary: st) (simp_all add: setImmediate_def)

lemma processStartingQueue_eq:
  "processStartingQueue st =
     st\<lparr>immediates := immediates st @ map TSend (startingQueue st), startingQueue := [],
        effects := effects st @ [Log ''trace'' ''hub-19'']\<rparr>"
  by (simp add: processStartingQueue_def fold_setImmediate basics Let_def)

lemma msg_reply_set_reply [simp]: "msg_reply (set_reply v m) = v"
  by (cases m) simp_all

section \<open>Properties that a middleware chain preserves\<close>

text \<open>
  A property of the state that holds before a chain holds after it, if the call of a
  middleware, a call of \<^verbatim>\<open>msg.reply\<close> and the completion callback each preserve it.
\<close>

lemma next_mw_rule:
  assumes "Q st"
    and "\<And>s. Q s \<Longrightarrow> Q (eff (MwCalled t m) s)"
    and "\<And>s err content. Q s \<Longrightarrow> Q (snd (callReply tag (msg_reply m) err content s))"
  shows "Q (snd (snd (next_mw calls fs t m tag st)))"
  using assms
proof (induction calls fs t m tag st rule: next_mw.induct)
  case (1 fs t m tag st)
  then show ?case by simp
next
  case (2 err content calls fs t m tag st)
  obtain e st1 where r: "callReply tag (msg_reply m) err content st = (e, st1)"
    by (cases "callReply tag (msg_reply m) err content st")
  have q: "Q st1"
    using "2.prems"(3) [OF "2.prems"(1), of err content] unfolding r by simp
  show ?case
  proof (cases e)
    case None
    from "2.IH" [OF r [symmetric] None q "2.prems"(2,3)] show ?thesis by (simp add: r None)
  next
    case (Some x)
    with q show ?thesis by (simp add: r)
  qed
next
  case (3 calls f fs t m tag st)
  from "3.IH" [OF "3.prems"(2) [OF "3.prems"(1)] "3.prems"(2,3)] show ?case by simp
next
  case (4 calls t m tag st)
  then show ?case by simp
qed

lemma recomplete_rule:
  assumes "Q st"
    and "\<And>s. Q s \<Longrightarrow> Q (cb m s)"
    and "\<And>s err content. Q s \<Longrightarrow> Q (snd (callReply tag (msg_reply m) err content s))"
  shows "Q (snd (recomplete cb tag m calls st))"
  using assms(1)
proof (induction calls arbitrary: st)
  case Nil
  then show ?case by simp
next
  case (Cons c calls)
  show ?case
  proof (cases c)
    case CallNext
    from Cons.IH [OF assms(2) [OF Cons.prems]] show ?thesis by (simp add: CallNext)
  next
    case (CallReply err content)
    obtain e st1 where r: "callReply tag (msg_reply m) err content st = (e, st1)"
      by (cases "callReply tag (msg_reply m) err content st")
    have q: "Q st1"
    using assms(3) [OF Cons.prems, of err content] unfolding r by simp
    from Cons.IH [OF q] q show ?thesis by (cases e) (simp_all add: CallReply r)
  qed
qed

lemma chain_rule:
  assumes "Q st"
    and "\<And>s. Q s \<Longrightarrow> Q (eff (MwCalled t (set_reply r m)) s)"
    and "\<And>s f err content. Q s \<Longrightarrow> Q (snd (callReply tag f err content s))"
    and "\<And>s m'. Q s \<Longrightarrow> Q (cb m' s)"
  shows "Q (snd (withCompletion cb tag (processMiddlewares t m r tag st)))"
proof -
  let ?n = "next_mw [CallNext] (middlewares st) t (set_reply r m) tag st"
  have q1: "Q (snd (snd ?n))"
    by (rule next_mw_rule [where Q = Q, OF assms(1)]) (erule assms(2), erule assms(3))
  obtain c calls st1 where n: "?n = (c, calls, st1)" by (cases ?n)
  with q1 have q: "Q st1" by simp
  show ?thesis
  proof (cases c)
    case Completed
    have "Q (snd (recomplete cb tag (set_reply JUndefined (set_reply r m)) (CallNext # calls) st1))"
      by (rule recomplete_rule [where Q = Q, OF q]) (erule assms(4), erule assms(3))
    then show ?thesis
      by (simp add: withCompletion_def processMiddlewares_def n Completed Let_def)
  next
    case Stopped
    with q show ?thesis
      by (simp add: withCompletion_def processMiddlewares_def n Let_def)
  next
    case (Threw e)
    with q show ?thesis
      by (simp add: withCompletion_def processMiddlewares_def n Let_def)
  qed
qed

lemma normalise_cong: "properties s = properties st \<Longrightarrow> normalise s = normalise st"
  by (simp add: normalise_def property_def fun_eq_iff)

lemma start_handed_out:
  assumes "\<not> started st" and "\<not> locked st" and "pending st = []"
    and "pending (start p c st) = [KRemoteStarted params cb]"
  shows "start p c st =
     st\<lparr>locked := True,
        netIp := (if truthy (getProp params ''ip'') then getProp params ''ip'' else netIp st),
        effects := effects st @ [Log ''trace'' ''hub-16'', RemoteStart],
        pending := [KRemoteStarted params cb]\<rparr>"
proof -
  let ?cb = "if isFunction p then p else c"
  let ?pp = "if isFunction p then JObj [] else if truthy p then p else JObj []"
  let ?st1 = "makeLog ''trace'' ''hub-16'' (st\<lparr>locked := True\<rparr>)"
  let ?st2 = "if truthy (getProp ?pp ''ip'') then ?st1\<lparr>netIp := getProp ?pp ''ip''\<rparr> else ?st1"
  have e: "start p c st =
      (if \<not> validate_startParams ?pp then
         (if truthy ?cb then callFn None ?cb [AVal (techerr ''hub-43'')] (makeLog ''warn'' ''hub-43'' ?st1)
          else makeLog ''warn'' ''hub-43'' ?st1)
       else (eff RemoteStart ?st2)\<lparr>pending := pending ?st2 @ [KRemoteStarted ?pp ?cb]\<rparr>)"
    using assms(1,2) by (simp add: start_def Let_def)
  show ?thesis
  proof (cases "validate_startParams ?pp")
    case False
    then have "pending (start p c st) = pending st"
      unfolding e by (simp add: basics)
    with assms(3,4) show ?thesis by simp
  next
    case True
    have p: "pending ?st2 = []" using assms(3) by (simp add: basics)
    from True have "pending (start p c st) = [KRemoteStarted ?pp ?cb]"
      unfolding e by (simp add: p)
    with assms(4) have k: "params = ?pp" "cb = ?cb"
      by simp_all
    from True show ?thesis
      unfolding e k by (simp add: basics assms(3))
  qed
qed

section \<open>What each operation leaves unchanged\<close>

lemmas views = life_def cbview_def mwview_def

lemma onDrop_frame:
  "life (onDrop env a st) = life st"
  "cbview (onDrop env a st) = cbview st"
  "mwview (onDrop env a st) = mwview st"
  by (simp_all add: views onDrop_def basics Let_def split: option.splits)

lemmas onDrop_simps [simp] = onDrop_frame [unfolded views prod.inject]

lemma onFound_frame:
  "life (onFound env a aid st) = life st"
  "cbview (onFound env a aid st) = cbview st"
  "mwview (onFound env a aid st) = mwview st"
  by (simp_all add: views onFound_def eff_def makeLog_def Let_def split: option.splits scope.splits)

lemmas onFound_simps [simp] = onFound_frame [unfolded views prod.inject]

lemma fireFound_frame:
  "life (fireFound env ls aid st) = life st"
  "cbview (fireFound env ls aid st) = cbview st"
  "mwview (fireFound env ls aid st) = mwview st"
  by (induction env ls aid st rule: fireFound.induct; simp add: views filter_remove1 remove1_idem)+

lemmas fireFound_simps [simp] = fireFound_frame [unfolded views prod.inject]

lemma emitFound_frame:
  "life (emitFound env n aid st) = life st"
  "cbview (emitFound env n aid st) = cbview st"
  "mwview (emitFound env n aid st) = mwview st"
  by (simp_all add: views emitFound_def)

lemmas emitFound_simps [simp] = emitFound_frame [unfolded views prod.inject]

lemma searchActor_frame:
  "life (searchActor env aid a st) = life st"
  "cbview (searchActor env aid a st) = cbview st"
  "mwview (searchActor env aid a st) = mwview st"
  by (simp_all add: views searchActor_def eff_def makeLog_def Let_def split: option.splits)

lemmas searchActor_simps [simp] = searchActor_frame [unfolded views prod.inject]

lemma internalSend_frame:
  "life (internalSend env a st) = life st"
  "cbview (internalSend env a st) = cbview st"
  "mwview (internalSend env a st) = mwview st"
  by (simp_all add: views internalSend_def split: option.splits)

lemmas internalSend_simps [simp] = internalSend_frame [unfolded views prod.inject]

lemma fireDrop_frame:
  "life (fireDrop env ls st) = life st"
  "cbview (fireDrop env ls st) = cbview st"
  "mwview (fireDrop env ls st) = mwview st"
  by (induction env ls st rule: fireDrop.induct; simp add: views)+

lemmas fireDrop_simps [simp] = fireDrop_frame [unfolded views prod.inject]

lemma emitDrop_frame:
  "life (emitDrop env i st) = life st"
  "cbview (emitDrop env i st) = cbview st"
  "mwview (emitDrop env i st) = mwview st"
  by (simp_all add: views emitDrop_def)

lemmas emitDrop_simps [simp] = emitDrop_frame [unfolded views prod.inject]

lemma isRes_not_drop: "isRes l \<Longrightarrow> \<not> isDropL i l"
  by (cases l) simp_all

lemma removeAllDropListeners_frame:
  "life (removeAllDropListeners i st) = life st"
  "cbview (removeAllDropListeners i st) = cbview st"
  "mwview (removeAllDropListeners i st) = mwview st"
  by (auto simp add: views removeAllDropListeners_def isRes_not_drop intro: filter_cong)

lemmas removeAllDropListeners_simps [simp] = removeAllDropListeners_frame [unfolded views prod.inject]

lemma processStartingQueue_frame:
  "cbview (processStartingQueue st) = cbview st"
  "mwview (processStartingQueue st) = mwview st"
  "life (processStartingQueue st) = life st"
  by (simp_all add: views processStartingQueue_eq filter_empty_conv image_iff)

lemmas processStartingQueue_simps [simp] = processStartingQueue_frame [unfolded views prod.inject]

lemma callReply_frame:
  "life (snd (callReply tag f err content st)) = life st"
  "mwview (snd (callReply tag f err content st)) = mwview st"
  by (simp_all add: views callReply_def eff_def split: jsval.splits fnval.splits option.splits)

lemmas callReply_simps [simp] = callReply_frame [unfolded views prod.inject]

lemma callReply_parts [simp]:
  "listeners (snd (callReply tag f err content st)) = listeners st"
  "immediates (snd (callReply tag f err content st)) = immediates st"
  "timers (snd (callReply tag f err content st)) = timers st"
  "heap (snd (callReply tag f err content st)) = heap st"
  "middlewares (snd (callReply tag f err content st)) = middlewares st"
  by (simp_all add: callReply_def eff_def split: jsval.splits fnval.splits option.splits)

lemma callReply_untagged [simp]:
  "filter isTagged (effects (snd (callReply None f err content st))) = filter isTagged (effects st)"
  "\<not> isFunction f \<Longrightarrow> filter isTagged (effects (snd (callReply tag f err content st))) = filter isTagged (effects st)"
  by (auto simp add: callReply_def eff_def split: jsval.splits fnval.splits option.splits)

lemma callReply_not_callable:
  "\<not> isFunction f \<Longrightarrow> callReply tag f err content st = (Some TypeError, st)"
  by (cases f) (simp_all add: callReply_def)

lemma eff_life [simp]: "life (eff e st) = life st"
  by (simp add: life_def eff_def)

lemma chain_life:
  assumes "\<And>m s. life (cb m s) = life s"
  shows "life (snd (withCompletion cb tag (processMiddlewares t m r tag st))) = life st"
  by (rule chain_rule [where Q = "\<lambda>s. life s = life st"]) (simp_all add: assms callReply_frame)

lemma uncaught_life: "life (uncaught r) = life (snd r)"
  by (cases r) (simp add: uncaught_def life_def eff_def split: option.splits)

lemma setReplyAt_frame:
  "life (setReplyAt a v st) = life st"
  "cbview (setReplyAt a v st) = cbview st"
  "mwview (setReplyAt a v st) = mwview st"
  by (simp_all add: views setReplyAt_def)

lemmas setReplyAt_simps [simp] = setReplyAt_frame [unfolded views prod.inject]

lemma afterReqOut_frame:
  "life (afterReqOut env a cb st) = life st"
  "mwview (afterReqOut env a cb st) = mwview st"
  by (simp_all add: views afterReqOut_def basics Let_def split: option.splits)

lemmas afterReqOut_simps [simp] = afterReqOut_frame [unfolded views prod.inject]

lemma send_frame:
  "life (send env args st) = life st"
proof -
  have "life (afterReqOut env a cb (setReplyAt a JUndefined s)) = life s" for a cb s
    by (simp add: life_def)
  from chain_life [of "\<lambda>m s. afterReqOut env _ _ (setReplyAt _ JUndefined s)", OF this]
  show ?thesis
    by (simp add: send_def Let_def uncaught_life) (simp add: life_def basics)
qed

lemmas send_simps [simp] = send_frame [unfolded views prod.inject]

lemma onRes_frame:
  "life (snd (onRes a res cb st)) = life st"
proof -
  have "life (deferCallback a cb m s) = life s" for m s
    by (cases m) (simp_all add: life_def setImmediate_def)
  from chain_life [of "deferCallback a cb", OF this] show ?thesis
    by (simp add: onRes_def) (simp add: life_def basics)
qed

lemmas onRes_simps [simp] = onRes_frame [unfolded views prod.inject]

lemma fireRes_frame:
  "life (snd (fireRes ls res st)) = life st"
proof (induction ls arbitrary: st)
  case Nil
  then show ?case by simp
next
  case (Cons l ls)
  then show ?case by (cases l) (simp_all add: views split_beta split: option.splits)
qed

lemmas fireRes_simps [simp] = fireRes_frame [unfolded views prod.inject]

lemma emitRes_frame:
  "life (snd (emitRes i res st)) = life st"
  by (simp add: views emitRes_def)

lemmas emitRes_simps [simp] = emitRes_frame [unfolded views prod.inject]

lemma cbview_untagged [simp]: "\<not> isTagged e \<Longrightarrow> cbview (eff e st) = cbview st"
  by (simp add: cbview_def eff_def)

lemma callReply_cbview: "cbview (snd (callReply None f err content st)) = cbview st"
  by (simp add: cbview_def)

lemma chain_cbview:
  assumes "\<And>m s. cbview (cb m s) = cbview s"
  shows "cbview (snd (withCompletion cb None (processMiddlewares t m r None st))) = cbview st"
  by (rule chain_rule [where Q = "\<lambda>s. cbview s = cbview st"])
    (simp_all add: assms callReply_cbview)

lemma uncaught_cbview: "cbview (uncaught r) = cbview (snd r)"
  by (cases r) (simp add: uncaught_def split: option.splits)

lemma transportReply_frame:
  "life (transportReply m s) = life s"
  "cbview (transportReply m s) = cbview s"
  by (cases m; simp)+

lemma deferHandler_frame:
  "life (deferHandler actor m s) = life s"
  "cbview (deferHandler actor m s) = cbview s"
  by (cases m; simp add: views setImmediate_def)+

lemma reqReply_frame:
  "life (snd (reqReply ac req err content st)) = life st"
  "cbview (snd (reqReply ac req err content st)) = cbview st"
  by (simp_all add: reqReply_def Let_def chain_life chain_cbview transportReply_frame)
    (simp_all add: views basics)

lemmas reqReply_simps [simp] = reqReply_frame [unfolded views prod.inject]

lemma replies_frame:
  "life (snd (replies ac req rs st)) = life st"
  "cbview (snd (replies ac req rs st)) = cbview st"
proof (induction rs arbitrary: st)
  case Nil
  {
    case 1 show ?case by simp
  next
    case 2 show ?case by simp
  }
next
  case (Cons r rs)
  {
    case 1 show ?case using Cons(1) by (cases r) (simp add: views split_beta split: option.splits)
  next
    case 2 show ?case using Cons(2) by (cases r) (simp add: views split_beta split: option.splits)
  }
qed

lemmas replies_simps [simp] = replies_frame [unfolded views prod.inject]

lemma dispatch_frame:
  "life (dispatch req actor st) = life st"
  "cbview (dispatch req actor st) = cbview st"
  by (simp_all add: views dispatch_def basics Let_def split_beta
      split: option.splits handler_outcome.splits)

lemmas dispatch_simps [simp] = dispatch_frame [unfolded views prod.inject]

lemma onReq_frame:
  "life (onReq req st) = life st"
  "cbview (onReq req st) = cbview st"
  by (simp_all add: onReq_def Let_def uncaught_life uncaught_cbview chain_life chain_cbview
      deferHandler_frame)
    (simp_all add: views basics)

lemmas onReq_simps [simp] = onReq_frame [unfolded views prod.inject]

lemma use_frame:
  "life (use fn st) = life st"
  "cbview (use fn st) = cbview st"
  "mwview (use fn st) = mwview st"
  by (simp_all add: views use_def)

lemmas use_simps [simp] = use_frame [unfolded views prod.inject]

lemma set_property_frame:
  "life (set_property k v st) = life st"
  "cbview (set_property k v st) = cbview st"
  "mwview (set_property k v st) = mwview st"
  by (simp_all add: views set_property_def basics)

lemmas set_property_simps [simp] = set_property_frame [unfolded views prod.inject]

lemma onActorAdded_frame:
  "life (onActorAdded env aid sc st) = life st"
  "cbview (onActorAdded env aid sc st) = cbview st"
  "mwview (onActorAdded env aid sc st) = mwview st"
  by (simp_all add: views onActorAdded_def basics)

lemmas onActorAdded_simps [simp] = onActorAdded_frame [unfolded views prod.inject]

lemma onActorRemoved_frame:
  "life (onActorRemoved aid st) = life st"
  "cbview (onActorRemoved aid st) = cbview st"
  "mwview (onActorRemoved aid st) = mwview st"
  by (simp_all add: views onActorRemoved_def basics)

lemmas onActorRemoved_simps [simp] = onActorRemoved_frame [unfolded views prod.inject]

lemma actors_add_frame:
  "life (actors_add env ac sc st) = life st"
  "cbview (actors_add env ac sc st) = cbview st"
  "mwview (actors_add env ac sc st) = mwview st"
  by (simp_all add: views actors_add_def)

lemmas actors_add_simps [simp] = actors_add_frame [unfolded views prod.inject]

lemma actors_remove_frame:
  "life (actors_remove aid sc st) = life st"
  "cbview (actors_remove aid sc st) = cbview st"
  "mwview (actors_remove aid sc st) = mwview st"
  by (simp_all add: views actors_remove_def split: option.splits)

lemmas actors_remove_simps [simp] = actors_remove_frame [unfolded views prod.inject]

lemma addActor_frame:
  "life (addActor env aid h st) = life st"
  "cbview (addActor env aid h st) = cbview st"
  "mwview (addActor env aid h st) = mwview st"
  by (simp_all add: views addActor_def basics Let_def)

lemmas addActor_simps [simp] = addActor_frame [unfolded views prod.inject]

lemma removeActor_frame:
  "life (removeActor aid st) = life st"
  "cbview (removeActor aid st) = cbview st"
  "mwview (removeActor aid st) = mwview st"
  by (simp_all add: views removeActor_def basics)

lemmas removeActor_simps [simp] = removeActor_frame [unfolded views prod.inject]

lemma start_frame:
  "cbview (start params cb st) = cbview st"
  "mwview (start params cb st) = mwview st"
  by (simp_all add: views start_def basics Let_def)

lemmas start_simps [simp] = start_frame [unfolded views prod.inject]

lemma stop_frame:
  "cbview (stop cb st) = cbview st"
  "mwview (stop cb st) = mwview st"
  by (simp_all add: views stop_def basics Let_def)

lemmas stop_simps [simp] = stop_frame [unfolded views prod.inject]

lemma complete_frame:
  "cbview (complete k st) = cbview st"
  "mwview (complete k st) = mwview st"
  by (simp_all add: views complete_def basics Let_def split: cont.splits)

lemmas complete_simps [simp] = complete_frame [unfolded views prod.inject]

lemma runTask_frame:
  "life (runTask env t st) = life st"
  by (simp add: views runTask_def basics split_beta split: task.splits option.splits)

lemmas runTask_simps [simp] = runTask_frame [unfolded views prod.inject]
section \<open>The lifecycle lock\<close>

lemma step_life:
  "(case ev of ApiStart p c \<Rightarrow> False | ApiStop c \<Rightarrow> False | Completes k \<Rightarrow> False | _ \<Rightarrow> True)
   \<Longrightarrow> life (step env ev st) = life st"
  by (cases ev) (simp_all add: views step_def eff_def split_beta split: option.splits list.splits)









section \<open>Calls of the middlewares\<close>

lemma mwOk_other: "\<not> isMw e \<Longrightarrow> mwOk e"
  by (cases e) simp_all

lemma mwsOk_all: "mwsOk st = list_all mwOk (effects st)"
  using mwOk_other by (auto simp add: mwsOk_def list_all_iff)

lemma mwsOk_basic [simp]:
  "mwsOk (eff e st) = (mwsOk st \<and> mwOk e)"
  "mwsOk (makeLog l c st) = mwsOk st"
  "mwsOk (setImmediate t st) = mwsOk st"
  "mwsOk (setTimeout t d st) = mwsOk st"
  "mwsOk (callFn tag f args st) = mwsOk st"
  by (auto simp add: mwsOk_all basics)

lemma mwsOk_update [simp]:
  "mwsOk (st\<lparr>started := b\<rparr>) = mwsOk st"
  "mwsOk (st\<lparr>locked := b\<rparr>) = mwsOk st"
  "mwsOk (st\<lparr>startingQueue := q\<rparr>) = mwsOk st"
  "mwsOk (st\<lparr>properties := ps\<rparr>) = mwsOk st"
  "mwsOk (st\<lparr>middlewares := ms\<rparr>) = mwsOk st"
  "mwsOk (st\<lparr>listeners := ls\<rparr>) = mwsOk st"
  "mwsOk (st\<lparr>immediates := ts\<rparr>) = mwsOk st"
  "mwsOk (st\<lparr>timers := tm\<rparr>) = mwsOk st"
  "mwsOk (st\<lparr>heap := h\<rparr>) = mwsOk st"
  "mwsOk (st\<lparr>registry := reg\<rparr>) = mwsOk st"
  "mwsOk (st\<lparr>netIp := ip\<rparr>) = mwsOk st"
  "mwsOk (st\<lparr>pending := ks\<rparr>) = mwsOk st"
  by (simp_all add: mwsOk_def)
lemma mwsOk_framed [simp]:
  "mwsOk (snd (callReply tag f err content st)) = mwsOk st"
  "mwsOk (onDrop env a st) = mwsOk st"
  "mwsOk (internalSend env a st) = mwsOk st"
  "mwsOk (afterReqOut env a cb st) = mwsOk st"
  "mwsOk (setReplyAt a v st) = mwsOk st"
  "mwsOk (emitDrop env i st) = mwsOk st"
  "mwsOk (removeAllDropListeners i st) = mwsOk st"
  "mwsOk (processStartingQueue st) = mwsOk st"
  "mwsOk (start params cb st) = mwsOk st"
  "mwsOk (stop cb st) = mwsOk st"
  "mwsOk (complete k st) = mwsOk st"
  "mwsOk (use fn st) = mwsOk st"
  "mwsOk (set_property key v st) = mwsOk st"
  "mwsOk (actors_add env ac sc st) = mwsOk st"
  "mwsOk (actors_remove aid sc st) = mwsOk st"
  "mwsOk (addActor env aid h st) = mwsOk st"
  "mwsOk (removeActor aid st) = mwsOk st"
  by (simp_all add: mwsOk_def)


lemma uncaught_mwsOk [simp]: "mwsOk (uncaught r) = mwsOk (snd r)"
  by (cases r) (simp add: uncaught_def split: option.splits)














lemmas machine = step_def start_def stop_def complete_def runTask_def processStartingQueue_def
  send_def normalise_def buildReq_def validate_message_def validate_startParams_def optional_def
  processMiddlewares_def withCompletion_def uncaught_def setReplyAt_def callReply_def
  afterReqOut_def internalSend_def searchActor_def
  emitFound_def onFound_def onDrop_def emitDrop_def emitRes_def onRes_def onReq_def dispatch_def
  reqReply_def addActor_def removeActor_def actors_add_def actors_remove_def onActorAdded_def
  onActorRemoved_def actors_get_def actors_pick_def aid_isValid_def aid_isBare_def aid_bare_def
  use_def removeAllDropListeners_def timeoutRes_def


section \<open>The registered middlewares\<close>

lemma middlewares_basic [simp]:
  "middlewares (eff e st) = middlewares st"
  "middlewares (makeLog l c st) = middlewares st"
  "middlewares (setImmediate t st) = middlewares st"
  "middlewares (setTimeout t d st) = middlewares st"
  "middlewares (callFn tag f args st) = middlewares st"
  "middlewares (setReplyAt a v st) = middlewares st"
  "middlewares (uncaught r) = middlewares (snd r)"
  "middlewares (deferCallback a cb m st) = middlewares st"
  "middlewares (transportReply m st) = middlewares st"
  "middlewares (deferHandler actor m st) = middlewares st"
  by (simp_all add: basics setReplyAt_def uncaught_def split_beta split: option.splits)
    (cases m; simp add: basics)+

lemma middlewares_onDrop [simp]: "middlewares (onDrop env a st) = middlewares st"
  by (simp add: onDrop_def Let_def deref_def split: option.splits)

lemma middlewares_onFound [simp]: "middlewares (onFound env a aid st) = middlewares st"
  by (simp add: onFound_def Let_def split: option.splits scope.splits)

lemma middlewares_fireFound [simp]: "middlewares (fireFound env ls aid st) = middlewares st"
  by (induction env ls aid st rule: fireFound.induct) simp_all

lemma middlewares_searchActor [simp]: "middlewares (searchActor env aid a st) = middlewares st"
  by (simp add: searchActor_def emitFound_def Let_def split: option.splits)

lemma middlewares_internalSend [simp]: "middlewares (internalSend env a st) = middlewares st"
  by (simp add: internalSend_def split: option.splits)

lemma middlewares_afterReqOut [simp]: "middlewares (afterReqOut env a cb st) = middlewares st"
  by (simp add: afterReqOut_def Let_def split: option.splits)

lemma middlewares_fireDrop [simp]: "middlewares (fireDrop env ls st) = middlewares st"
  by (induction env ls st rule: fireDrop.induct) simp_all

lemma middlewares_chain:
  assumes "\<And>m s. middlewares (cb m s) = middlewares s"
  shows "middlewares (snd (withCompletion cb tag (processMiddlewares t m r tag st))) = middlewares st"
  by (rule chain_rule [where Q = "\<lambda>s. middlewares s = middlewares st"]) (simp_all add: assms)

lemma middlewares_send [simp]: "middlewares (send env args st) = middlewares st"
  by (simp add: send_def Let_def middlewares_chain)

lemma middlewares_onRes [simp]: "middlewares (snd (onRes a res cb st)) = middlewares st"
  by (simp add: onRes_def middlewares_chain)

lemma middlewares_fireRes [simp]: "middlewares (snd (fireRes ls res st)) = middlewares st"
proof (induction ls arbitrary: st)
  case Nil
  then show ?case by simp
next
  case (Cons l ls)
  then show ?case by (cases l) (simp_all add: split_beta split: option.splits)
qed

lemma middlewares_reqReply [simp]: "middlewares (snd (reqReply ac req err content st)) = middlewares st"
  by (simp add: reqReply_def Let_def middlewares_chain)

lemma middlewares_replies [simp]: "middlewares (snd (replies ac req rs st)) = middlewares st"
proof (induction rs arbitrary: st)
  case Nil
  then show ?case by simp
next
  case (Cons r rs)
  then show ?case by (cases r) (simp add: split_beta split: option.splits)
qed

lemma middlewares_runTask [simp]: "middlewares (runTask env t st) = middlewares st"
  by (cases t)
    (simp_all add: runTask_def processStartingQueue_eq dispatch_def emitRes_def
      removeAllDropListeners_def Let_def split_beta split: option.splits handler_outcome.splits)

lemma middlewares_step: "middlewares (step env ev st) = middlewares st @ registers ev"
  by (cases ev)
    (simp_all add: step_def start_def stop_def complete_def use_def set_property_def
      addActor_def removeActor_def actors_add_def actors_remove_def onActorAdded_def
      onActorRemoved_def emitFound_def emitRes_def emitDrop_def onReq_def middlewares_chain
      Let_def split_beta split: option.splits cont.splits list.splits)

section \<open>Calls of a sender's callback\<close>

lemma callFor_tagged: "callFor a e \<Longrightarrow> isTagged e"
  by (cases "(a, e)" rule: callFor.cases) simp_all

lemma resFor_isRes: "resFor a l \<Longrightarrow> isRes l"
  by (cases l) simp_all

lemma cbFor_isCb: "cbFor a t \<Longrightarrow> isCb t"
  by (cases t) simp_all

lemma filter_callFor: "filter (callFor a) (filter isTagged es) = filter (callFor a) es"
  by (induction es) (auto dest: callFor_tagged)

lemma filter_resFor: "filter (resFor a) (filter isRes ls) = filter (resFor a) ls"
  by (induction ls) (auto dest: resFor_isRes)

lemma filter_cbFor: "filter (cbFor a) (filter isCb ts) = filter (cbFor a) ts"
  by (induction ts) (auto dest: cbFor_isCb)

lemma uses_plain:
  "uses a st = length (filter (resFor a) (listeners st)) +
     length (filter (cbFor a) (immediates st)) + length (filter (callFor a) (effects st))"
  by (simp add: uses_def filter_callFor filter_resFor filter_cbFor del: filter_filter)
lemma uses_framed [simp]:
  "uses b (onDrop env a st) = uses b st"
  "uses b (onFound env a aid st) = uses b st"
  "uses b (internalSend env a st) = uses b st"
  "uses b (setReplyAt a v st) = uses b st"
  "uses b (emitDrop env i st) = uses b st"
  "uses b (removeAllDropListeners i st) = uses b st"
  "uses b (processStartingQueue st) = uses b st"
  "uses b (dispatch req actor st) = uses b st"
  "uses b (onReq req st) = uses b st"
  "uses b (start params cb st) = uses b st"
  "uses b (stop cb st) = uses b st"
  "uses b (complete k st) = uses b st"
  "uses b (use fn st) = uses b st"
  "uses b (set_property key v st) = uses b st"
  "uses b (actors_add env ac sc st) = uses b st"
  "uses b (actors_remove aid sc st) = uses b st"
  "uses b (addActor env aid h st) = uses b st"
  "uses b (removeActor aid st) = uses b st"
  by (simp_all add: uses_def del: filter_filter)
lemma atMostOnce_framed [simp]:
  "atMostOnce (onDrop env a st) = atMostOnce st"
  "atMostOnce (internalSend env a st) = atMostOnce st"
  "atMostOnce (emitDrop env i st) = atMostOnce st"
  "atMostOnce (removeAllDropListeners i st) = atMostOnce st"
  "atMostOnce (processStartingQueue st) = atMostOnce st"
  "atMostOnce (dispatch req actor st) = atMostOnce st"
  "atMostOnce (onReq req st) = atMostOnce st"
  "atMostOnce (start params cb st) = atMostOnce st"
  "atMostOnce (stop cb st) = atMostOnce st"
  "atMostOnce (complete k st) = atMostOnce st"
  "atMostOnce (use fn st) = atMostOnce st"
  "atMostOnce (set_property key v st) = atMostOnce st"
  "atMostOnce (actors_add env ac sc st) = atMostOnce st"
  "atMostOnce (actors_remove aid sc st) = atMostOnce st"
  "atMostOnce (addActor env aid h st) = atMostOnce st"
  "atMostOnce (removeActor aid st) = atMostOnce st"
  by (simp_all add: atMostOnce_def)

lemma callFor_Call [simp]: "callFor b (Call tag f args) = (tag = Some b)"
  by (cases tag) auto

lemma isTagged_Call [simp]: "isTagged (Call tag f args) = (tag \<noteq> None)"
  by (cases tag) auto

lemma callReply_calls:
  "length (filter (callFor b) (filter isTagged (effects (snd (callReply tag f err content st)))))
   \<le> length (filter (callFor b) (filter isTagged (effects st))) +
      (if tag = Some b \<and> fst (callReply tag f err content st) = None then 1 else 0)"
  by (auto simp add: callReply_def eff_def simp del: filter_filter
      split: jsval.splits fnval.splits option.splits)

lemma callReply_uses:
  "uses b (snd (callReply tag f err content st))
   \<le> uses b st + (if tag = Some b \<and> fst (callReply tag f err content st) = None then 1 else 0)"
  using callReply_calls [of b tag f err content st] by (simp add: uses_def del: filter_filter)

lemma callReply_uses_null:
  "\<not> isFunction f \<Longrightarrow> uses b (snd (callReply tag f err content st)) = uses b st"
  by (simp add: uses_def del: filter_filter)

lemma afterReqOut_parts [simp]:
  "length (heap (afterReqOut env a cb st)) = length (heap st)"
  "filter isCb (map snd (timers (afterReqOut env a cb st))) = filter isCb (map snd (timers st))"
  by (simp_all add: afterReqOut_def setTimeout_def Let_def del: filter_filter split: option.splits)

lemma afterReqOut_uses:
  "uses b (afterReqOut env a cb st) \<le> uses b st + (if b = a then 1 else 0)"
  by (simp add: afterReqOut_def uses_def setTimeout_def Let_def del: filter_filter
      split: option.splits)

lemma uses_basic [simp]:
  "uses b (makeLog l c st) = uses b st"
  "uses b (setImmediate t st) = uses b st + (if cbFor b t then 1 else 0)"
  "uses b (setTimeout t d st) = uses b st"
  "uses b (eff e st) = uses b st + (if callFor b e then 1 else 0)"
  "uses b (st\<lparr>heap := h\<rparr>) = uses b st"
  "uses b (st\<lparr>timers := tm\<rparr>) = uses b st"
  "uses b (st\<lparr>startingQueue := q\<rparr>) = uses b st"
  "uses b (st\<lparr>pending := ks\<rparr>) = uses b st"
  by (simp_all add: uses_plain basics)

lemma nexts_simps [simp]:
  "nexts [] = 0"
  "nexts (CallNext # calls) = Suc (nexts calls)"
  "nexts (CallReply err content # calls) = nexts calls"
  "nexts (xs @ ys) = nexts xs + nexts ys"
  by (simp_all add: nexts_def)

lemma orderlyD:
  "orderly f \<Longrightarrow> length (f REQ_OUT m) \<le> 1"
  "orderly f \<Longrightarrow> nexts (f RES_IN m) \<le> 1"
  by (simp_all add: orderly_def)

text \<open>
  An orderly chain completes at most once: when it completes, the calls that remain to be
  made hold no call of \<^verbatim>\<open>next\<close>.
\<close>

lemma next_mw_in:
  "list_all orderly fs \<Longrightarrow> nexts calls \<le> 1 \<Longrightarrow> t = RES_IN \<Longrightarrow>
   next_mw calls fs t m tag st = (Completed, rest, st1) \<Longrightarrow> nexts rest = 0"
proof (induction calls fs t m tag st rule: next_mw.induct)
  case (1 fs t m tag st)
  then show ?case by simp
next
  case (2 err content calls fs t m tag st)
  obtain e s where r: "callReply tag (msg_reply m) err content st = (e, s)"
    by (cases "callReply tag (msg_reply m) err content st")
  show ?case
  proof (cases e)
    case None
    from "2.prems" have "next_mw calls fs t m tag s = (Completed, rest, st1)"
      by (simp add: r None)
    from "2.IH" [OF r [symmetric] None "2.prems"(1) _ "2.prems"(3) this] "2.prems"(2)
    show ?thesis by simp
  next
    case (Some x)
    with "2.prems" show ?thesis by (simp add: r)
  qed
next
  case (3 calls f fs t m tag st)
  from "3.prems" orderlyD(2) [of f m] have "nexts (f t m @ calls) \<le> 1"
    by simp
  from "3.IH" [OF _ this "3.prems"(3)] "3.prems" show ?case by simp
next
  case (4 calls t m tag st)
  then show ?case by simp
qed

lemma next_mw_out:
  "list_all orderly fs \<Longrightarrow> length calls \<le> 1 \<Longrightarrow> t = REQ_OUT \<Longrightarrow>
   next_mw calls fs t m tag st = (c, rest, st1) \<Longrightarrow>
   rest = [] \<and> uses b st1 \<le> uses b st + (if tag = Some b \<and> c \<noteq> Completed then 1 else 0)"
proof (induction calls fs t m tag st rule: next_mw.induct)
  case (1 fs t m tag st)
  then show ?case by auto
next
  case (2 err content calls fs t m tag st)
  from "2.prems"(2) have calls: "calls = []" by simp
  obtain e s where r: "callReply tag (msg_reply m) err content st = (e, s)"
    by (cases "callReply tag (msg_reply m) err content st")
  from callReply_uses [of b tag "msg_reply m" err content st] r
  have u: "uses b s \<le> uses b st + (if tag = Some b then 1 else 0)" by (auto split: if_splits)
  from "2.prems"(4) u show ?case
    by (cases e) (auto simp add: r calls)
next
  case (3 calls f fs t m tag st)
  from "3.prems" orderlyD(1) [of f m] have calls: "calls = []" and l: "length (f t m @ calls) \<le> 1"
    by simp_all
  from "3.prems" have n: "next_mw (f t m @ calls) fs t m tag (eff (MwCalled t m) st) = (c, rest, st1)"
    by simp
  from "3.IH" [OF _ l "3.prems"(3) n] "3.prems"(1) show ?case by simp
next
  case (4 calls t m tag st)
  then show ?case by auto
qed

lemma recomplete_done:
  "nexts calls = 0 \<Longrightarrow> \<not> isFunction (msg_reply m) \<Longrightarrow> snd (recomplete cb tag m calls st) = st"
proof (cases calls)
  case Nil
  then show ?thesis by simp
next
  case (Cons c cs)
  assume "nexts calls = 0" and "\<not> isFunction (msg_reply m)"
  with Cons show ?thesis
    by (cases c) (simp_all add: callReply_not_callable)
qed

lemma next_mw_parts [simp]:
  "listeners (snd (snd (next_mw calls fs t m tag st))) = listeners st"
  "immediates (snd (snd (next_mw calls fs t m tag st))) = immediates st"
  "timers (snd (snd (next_mw calls fs t m tag st))) = timers st"
  "heap (snd (snd (next_mw calls fs t m tag st))) = heap st"
  "middlewares (snd (snd (next_mw calls fs t m tag st))) = middlewares st"
  by (rule next_mw_rule [where Q = "\<lambda>s. listeners s = listeners st"], simp_all add: eff_def,
      rule next_mw_rule [where Q = "\<lambda>s. immediates s = immediates st"], simp_all add: eff_def,
      rule next_mw_rule [where Q = "\<lambda>s. timers s = timers st"], simp_all add: eff_def,
      rule next_mw_rule [where Q = "\<lambda>s. heap s = heap st"], simp_all add: eff_def,
      rule next_mw_rule [where Q = "\<lambda>s. middlewares s = middlewares st"], simp_all add: eff_def)

lemma next_mw_uses_null:
  "\<not> isFunction (msg_reply m) \<Longrightarrow> uses b (snd (snd (next_mw calls fs t m tag st))) = uses b st"
  by (rule next_mw_rule [where Q = "\<lambda>s. uses b s = uses b st"]) (simp_all add: callReply_uses_null)

lemma chain_parts:
  assumes "\<And>m s. length (heap (cb m s)) = length (heap s)"
    and "\<And>m s. filter isCb (map snd (timers (cb m s))) = filter isCb (map snd (timers s))"
  shows "length (heap (snd (withCompletion cb tag (processMiddlewares t m r tag st)))) = length (heap st)"
    and "filter isCb (map snd (timers (snd (withCompletion cb tag (processMiddlewares t m r tag st)))))
         = filter isCb (map snd (timers st))"
  by (rule chain_rule [where Q = "\<lambda>s. length (heap s) = length (heap st)"],
      simp_all add: assms eff_def del: filter_filter,
      rule chain_rule [where Q = "\<lambda>s. filter isCb (map snd (timers s)) = filter isCb (map snd (timers st))"],
      simp_all add: assms eff_def del: filter_filter)

lemma uncaught_parts [simp]:
  "heap (uncaught r) = heap (snd r)"
  "timers (uncaught r) = timers (snd r)"
  "listeners (uncaught r) = listeners (snd r)"
  "immediates (uncaught r) = immediates (snd r)"
  by (cases r; simp add: uncaught_def eff_def split: option.splits)+

lemma setReplyAt_parts [simp]:
  "length (heap (setReplyAt a v st)) = length (heap st)"
  "timers (setReplyAt a v st) = timers st"
  "listeners (setReplyAt a v st) = listeners st"
  "immediates (setReplyAt a v st) = immediates st"
  by (simp_all add: setReplyAt_def)

lemma send_parts [simp]:
  "length (heap (send env args st)) = length (heap st) + (if started st then 1 else 0)"
  "filter isCb (map snd (timers (send env args st))) = filter isCb (map snd (timers st))"
  by (simp_all add: send_def Let_def chain_parts basics del: filter_filter)

lemma send_uses:
  assumes "list_all orderly (middlewares st)"
  shows "uses b (send env args st) \<le> uses b st + (if started st \<and> b = length (heap st) then 1 else 0)"
proof (cases "started st")
  case False
  then show ?thesis by (simp add: send_def Let_def)
next
  case True
  let ?x = "normalise st args"
  let ?req = "buildReq env st ?x"
  let ?cb = "q_cb ?x"
  let ?a = "length (heap st)"
  let ?st0 = "setReplyAt ?a ?cb (st\<lparr>heap := heap st @ [?req]\<rparr>)"
  let ?m1 = "MReq (?req\<lparr>r_reply := ?cb\<rparr>)"
  show ?thesis
  proof (cases "\<not> validate_message ?req \<or> (truthy ?cb \<and> \<not> isFunction ?cb)")
    case True
    with \<open>started st\<close> show ?thesis
      by (simp add: send_def Let_def callFn_def)
  next
    case False
    obtain c rest st1 where n: "next_mw [CallNext] (middlewares st) REQ_OUT ?m1 (Some ?a) ?st0 = (c, rest, st1)"
      by (cases "next_mw [CallNext] (middlewares st) REQ_OUT ?m1 (Some ?a) ?st0")
    from next_mw_out [OF assms _ refl n, of b]
    have r: "rest = []" and u: "uses b st1 \<le> uses b st + (if ?a = b \<and> c \<noteq> Completed then 1 else 0)"
      by (simp_all split: if_splits)
    note aro = afterReqOut_uses [of b env ?a ?cb "setReplyAt ?a JUndefined st1"]
    from u aro False \<open>started st\<close> show ?thesis
      by (cases c)
        (auto simp add: send_def Let_def processMiddlewares_def withCompletion_def uncaught_def n r
          split: if_splits)
  qed
qed

lemma deferCallback_parts [simp]:
  "listeners (deferCallback a cb m st) = listeners st"
  "heap (deferCallback a cb m st) = heap st"
  "timers (deferCallback a cb m st) = timers st"
  by (cases m; simp add: setImmediate_def)+

lemma onRes_parts [simp]:
  "filter isRes (listeners (snd (onRes a res cb st))) = filter isRes (listeners st)"
  "length (heap (snd (onRes a res cb st))) = length (heap st)"
  "filter isCb (map snd (timers (snd (onRes a res cb st)))) = filter isCb (map snd (timers st))"
proof -
  show "filter isRes (listeners (snd (onRes a res cb st))) = filter isRes (listeners st)"
    unfolding onRes_def
    by (rule chain_rule [where Q = "\<lambda>s. filter isRes (listeners s) = filter isRes (listeners st)"])
      (simp_all add: basics)
qed (simp_all add: onRes_def chain_parts basics del: filter_filter)

lemma onRes_uses:
  assumes "list_all orderly (middlewares st)"
  shows "uses b (snd (onRes a res cb st)) \<le> uses b st + (if b = a then 1 else 0)"
proof -
  let ?st0 = "makeLog ''trace'' ''hub-25'' st"
  let ?m1 = "MRes (res\<lparr>s_reply := JNull\<rparr>)"
  obtain c rest st1 where n: "next_mw [CallNext] (middlewares st) RES_IN ?m1 (Some a) ?st0 = (c, rest, st1)"
    by (cases "next_mw [CallNext] (middlewares st) RES_IN ?m1 (Some a) ?st0")
  from next_mw_uses_null [of ?m1 b "[CallNext]" "middlewares st" RES_IN "Some a" ?st0]
  have u: "uses b st1 = uses b st" by (simp add: n)
  show ?thesis
  proof (cases c)
    case Completed
    from next_mw_in [OF assms _ refl n [unfolded Completed]] have "nexts rest = 0" by simp
    from recomplete_done [OF this, of "set_reply JUndefined ?m1" "deferCallback a cb" "Some a"]
    have "snd (recomplete (deferCallback a cb) (Some a) (set_reply JUndefined ?m1) rest s) = s" for s
      by simp
    with u show ?thesis
      by (simp add: onRes_def processMiddlewares_def withCompletion_def n Completed Let_def)
  next
    case Stopped
    with u show ?thesis
      by (simp add: onRes_def processMiddlewares_def withCompletion_def n Let_def)
  next
    case (Threw e)
    with u show ?thesis
      by (simp add: onRes_def processMiddlewares_def withCompletion_def n Let_def)
  qed
qed

lemma length_filter_remove1:
  "x \<in> set xs \<Longrightarrow> length (filter P (remove1 x xs)) + (if P x then 1 else 0) = length (filter P xs)"
  by (induction xs) auto

lemma uses_remove_listener:
  "ResL i a cb \<in> set (listeners st) \<Longrightarrow>
   uses b (st\<lparr>listeners := remove1 (ResL i a cb) (listeners st)\<rparr>) + (if b = a then 1 else 0)
   = uses b st"
  using length_filter_remove1 [of "ResL i a cb" "listeners st" "resFor b"]
  by (simp add: uses_plain)

lemma fireRes_parts [simp]:
  "length (heap (snd (fireRes ls res st))) = length (heap st)"
  "filter isCb (map snd (timers (snd (fireRes ls res st)))) = filter isCb (map snd (timers st))"
proof (induction ls arbitrary: st)
  case Nil
  {
    case 1 show ?case by simp
  next
    case 2 show ?case by simp
  }
next
  case (Cons l ls)
  {
    case 1 show ?case using Cons(1) by (cases l) (simp_all add: split_beta split: option.splits)
  next
    case 2 show ?case using Cons(2)
      by (cases l) (simp_all add: split_beta del: filter_filter split: option.splits)
  }
qed

lemma fireRes_uses:
  "list_all orderly (middlewares st) \<Longrightarrow> mset ls \<subseteq># mset (filter isRes (listeners st)) \<Longrightarrow>
   uses b (snd (fireRes ls res st)) \<le> uses b st"
proof (induction ls arbitrary: st)
  case Nil
  then show ?case by simp
next
  case (Cons l ls)
  from Cons.prems have l: "l \<in># mset (filter isRes (listeners st))"
    and ls: "mset ls \<subseteq># mset (filter isRes (listeners st)) - {#l#}"
    by (simp_all add: insert_subset_eq_iff)
  show ?case
  proof (cases l)
    case (ResL i a cb)
    let ?st1 = "st\<lparr>listeners := remove1 l (listeners st)\<rparr>"
    let ?st2 = "snd (onRes a res cb ?st1)"
    from l have mem: "ResL i a cb \<in> set (listeners st)" by (simp add: ResL)
    have o1: "list_all orderly (middlewares ?st1)" using Cons.prems(1) by simp
    then have o2: "list_all orderly (middlewares ?st2)" by simp
    have "filter isRes (listeners ?st2) = remove1 l (filter isRes (listeners st))"
      by (simp add: filter_remove1)
    with ls have sub: "mset ls \<subseteq># mset (filter isRes (listeners ?st2))" by simp
    have le: "uses b ?st2 \<le> uses b st"
      using onRes_uses [OF o1, of b a res cb] uses_remove_listener [OF mem, of b]
      by (simp add: ResL)
    from Cons.IH [OF o2 sub] le show ?thesis
      by (simp add: ResL split_beta split: option.splits)
  next
    case (DropL i a)
    from ls have "mset ls \<subseteq># mset (filter isRes (listeners st))"
      by (meson diff_subset_eq_self subset_mset.order_trans)
    from Cons.IH [OF Cons.prems(1) this] show ?thesis by (simp add: DropL)
  next
    case (FoundL n a)
    from ls have "mset ls \<subseteq># mset (filter isRes (listeners st))"
      by (meson diff_subset_eq_self subset_mset.order_trans)
    from Cons.IH [OF Cons.prems(1) this] show ?thesis by (simp add: FoundL)
  qed
qed

lemma isResL_isRes: "isResL i l \<Longrightarrow> isRes l"
  by (cases l) simp_all

lemma emitRes_parts [simp]:
  "length (heap (snd (emitRes i res st))) = length (heap st)"
  "filter isCb (map snd (timers (snd (emitRes i res st)))) = filter isCb (map snd (timers st))"
  by (simp_all add: emitRes_def del: filter_filter)

lemma emitRes_uses:
  assumes "list_all orderly (middlewares st)"
  shows "uses b (snd (emitRes i res st)) \<le> uses b st"
proof -
  have "filter (isResL i) (listeners st) = filter (isResL i) (filter isRes (listeners st))"
    by (induction "listeners st") (auto dest: isResL_isRes intro: filter_cong simp del: filter_filter simp add: filter_filter)
  then have "mset (filter (isResL i) (listeners st)) \<subseteq># mset (filter isRes (listeners st))"
    by (metis mset_filter multiset_filter_subset)
  from fireRes_uses [OF assms this] show ?thesis by (simp add: emitRes_def)
qed

lemma atMostOnce_mono:
  assumes "atMostOnce st" and "\<And>a. uses a st' \<le> uses a st"
    and "length (heap st') = length (heap st)"
    and "filter isCb (map snd (timers st')) = filter isCb (map snd (timers st))"
  shows "atMostOnce st'"
proof -
  have "uses a st' \<le> (if a < length (heap st') then 1 else 0)" for a
  proof -
    from assms(1) have "uses a st \<le> (if a < length (heap st) then 1 else 0)"
      by (simp add: atMostOnce_def)
    with assms(2) [of a] assms(3) show ?thesis
      by (auto split: if_splits)
  qed
  with assms(1,4) show ?thesis by (simp add: atMostOnce_def del: filter_filter)
qed

lemma atMostOnce_send:
  assumes "list_all orderly (middlewares st)" and inv: "atMostOnce st"
  shows "atMostOnce (send env args st)"
proof -
  have "uses a (send env args st) \<le> (if a < length (heap (send env args st)) then 1 else 0)" for a
  proof -
    from inv have "uses a st \<le> (if a < length (heap st) then 1 else 0)"
      by (simp add: atMostOnce_def)
    with send_uses [OF assms(1), of a env args] show ?thesis
      by (auto split: if_splits)
  qed
  with inv show ?thesis by (simp add: atMostOnce_def del: filter_filter)
qed

lemma atMostOnce_emitRes:
  assumes "list_all orderly (middlewares st)" and inv: "atMostOnce st"
  shows "atMostOnce (snd (emitRes i res st))"
  by (rule atMostOnce_mono [OF inv]) (simp_all add: emitRes_uses [OF assms(1)] del: filter_filter)

lemma atMostOnce_basic [simp]:
  "atMostOnce (makeLog l c st) = atMostOnce st"
  "\<not> isTagged e \<Longrightarrow> atMostOnce (eff e st) = atMostOnce st"
  "atMostOnce (callFn None f args st) = atMostOnce st"
  "atMostOnce (st\<lparr>pending := ks\<rparr>) = atMostOnce st"
  by (simp_all add: atMostOnce_def uses_def basics del: filter_filter)

lemma runTask_atMostOnce:
  "list_all orderly (middlewares st) \<Longrightarrow> \<not> isCb t \<Longrightarrow> atMostOnce st \<Longrightarrow>
   atMostOnce (runTask env t st)"
  by (cases t)
    (simp_all add: runTask_def atMostOnce_send atMostOnce_emitRes split_beta split: option.splits)

lemma callback_task_atMostOnce:
  assumes "atMostOnce st" and "immediates st = TCallback a cb res # ts"
  shows "atMostOnce (runTask env (TCallback a cb res) (st\<lparr>immediates := ts\<rparr>))"
proof (rule atMostOnce_mono [OF assms(1)])
  let ?st1 = "st\<lparr>immediates := ts\<rparr>"
  fix b
  have u: "uses b ?st1 + (if b = a then 1 else 0) = uses b st"
    using assms(2) by (simp add: uses_plain)
  have r: "uses b (runTask env (TCallback a cb res) ?st1) \<le> uses b ?st1 + (if b = a then 1 else 0)"
    by (auto simp add: runTask_def)
  from r show "uses b (runTask env (TCallback a cb res) ?st1) \<le> uses b st"
    unfolding u .
next
  show "length (heap (runTask env (TCallback a cb res) (st\<lparr>immediates := ts\<rparr>))) = length (heap st)"
    by (simp add: runTask_def basics)
next
  show "filter isCb (map snd (timers (runTask env (TCallback a cb res) (st\<lparr>immediates := ts\<rparr>)))) =
      filter isCb (map snd (timers st))"
    by (simp add: runTask_def basics)
qed

lemma step_atMostOnce:
  assumes o: "list_all orderly (middlewares st)" and inv: "atMostOnce st"
  shows "atMostOnce (step env ev st)"
proof (cases ev)
  case (IncomingRes res)
  from atMostOnce_emitRes [OF o inv] show ?thesis
    by (simp add: step_def IncomingRes split_beta split: option.splits)
next
  case NextImmediate
  show ?thesis
  proof (cases "immediates st")
    case Nil
    with inv show ?thesis by (simp add: step_def NextImmediate)
  next
    case (Cons t ts)
    show ?thesis
    proof (cases "isCb t")
      case True
      then obtain a cb res where t: "t = TCallback a cb res" by (cases t) simp_all
      from callback_task_atMostOnce [OF inv Cons [unfolded t]] show ?thesis
        by (simp add: step_def NextImmediate Cons t)
    next
      case False
      from o have o1: "list_all orderly (middlewares (st\<lparr>immediates := ts\<rparr>))" by simp
      from False inv Cons have "atMostOnce (st\<lparr>immediates := ts\<rparr>)"
        by (simp add: atMostOnce_def uses_def del: filter_filter)
      from runTask_atMostOnce [OF o1 False this] show ?thesis
        by (simp add: step_def NextImmediate Cons)
    qed
  qed
next
  case (TimerFires i)
  show ?thesis
  proof (cases "i < length (timers st)")
    case False
    with inv show ?thesis by (simp add: step_def TimerFires)
  next
    case True
    let ?st1 = "st\<lparr>timers := take i (timers st) @ drop (Suc i) (timers st)\<rparr>"
    from o have o1: "list_all orderly (middlewares ?st1)" by simp
    from inv have none: "\<forall>x \<in> set (timers st). \<not> isCb (snd x)"
      by (simp add: atMostOnce_def filter_empty_conv)
    with True have t: "\<not> isCb (snd (timers st ! i))" by simp
    have "set (take i (timers st) @ drop (Suc i) (timers st)) \<subseteq> set (timers st)"
      by (auto dest: in_set_takeD in_set_dropD)
    with none have "filter isCb (map snd (take i (timers st) @ drop (Suc i) (timers st))) = []"
      by (auto simp add: filter_empty_conv simp del: filter_filter)
    with inv have "atMostOnce ?st1"
      by (simp add: atMostOnce_def del: filter_filter)
    from runTask_atMostOnce [OF o1 t this] True show ?thesis
      by (simp add: step_def TimerFires)
  qed
next
  case (Completes k)
  from inv show ?thesis by (simp add: step_def Completes)
qed (simp_all add: step_def atMostOnce_send o inv)

lemma run_atMostOnce:
  "list_all orderly (middlewares st) \<Longrightarrow> atMostOnce st \<Longrightarrow>
   list_all orderly (concat (map (registers \<circ> snd) evs)) \<Longrightarrow> atMostOnce (run evs st)"
proof (induction evs arbitrary: st)
  case Nil
  then show ?case by simp
next
  case (Cons ev evs)
  obtain env e where ev: "ev = (env, e)" by (cases ev)
  from Cons.prems have o: "list_all orderly (middlewares (step env e st))"
    by (simp add: middlewares_step ev)
  from Cons.prems have "atMostOnce (step env e st)"
    by (simp add: step_atMostOnce)
  from Cons.IH [OF o this] Cons.prems(3) show ?case by (simp add: ev)
qed

lemma init_atMostOnce: "atMostOnce init"
  by (simp add: atMostOnce_def uses_def init_def)

lemma race_calls:
  "filter (callFor 0) (effects (run race init)) =
     [Call (Some 0) (JFun (UserFn 1)) [AVal JNull, ARes pongRes]] \<and>
   listeners (run race init) = [] \<and> immediates (run race init) = []"
  by (simp add: race_def init_def askPong_def pongRes_def pongRemote_def env0_def env1_def
      passThrough_def machine basics Let_def)

section \<open>Sends do not depend on the immediates and the starting queue\<close>

lemma parked_basic:
  "eff e (st\<lparr>immediates := ts, startingQueue := q\<rparr>) = (eff e st)\<lparr>immediates := ts, startingQueue := q\<rparr>"
  "makeLog l c (st\<lparr>immediates := ts, startingQueue := q\<rparr>) = (makeLog l c st)\<lparr>immediates := ts, startingQueue := q\<rparr>"
  "setTimeout t d (st\<lparr>immediates := ts, startingQueue := q\<rparr>) = (setTimeout t d st)\<lparr>immediates := ts, startingQueue := q\<rparr>"
  "callFn tag f args (st\<lparr>immediates := ts, startingQueue := q\<rparr>) = (callFn tag f args st)\<lparr>immediates := ts, startingQueue := q\<rparr>"
  "setReplyAt a v (st\<lparr>immediates := ts, startingQueue := q\<rparr>) = (setReplyAt a v st)\<lparr>immediates := ts, startingQueue := q\<rparr>"
  "deref (st\<lparr>immediates := ts, startingQueue := q\<rparr>) a = deref st a"
  "property (st\<lparr>immediates := ts, startingQueue := q\<rparr>) k = property st k"
  by (simp_all add: basics setReplyAt_def)

lemma parked_callReply:
  "callReply tag f err content (st\<lparr>immediates := ts, startingQueue := q\<rparr>) =
     apsnd (\<lambda>s. s\<lparr>immediates := ts, startingQueue := q\<rparr>) (callReply tag f err content st)"
  by (simp add: callReply_def eff_def split: jsval.splits fnval.splits option.splits)

lemma parked_next_mw:
  "next_mw calls fs t m tag (st\<lparr>immediates := ts, startingQueue := q\<rparr>) =
     apsnd (apsnd (\<lambda>s. s\<lparr>immediates := ts, startingQueue := q\<rparr>)) (next_mw calls fs t m tag st)"
proof (induction calls fs t m tag st rule: next_mw.induct)
  case (1 fs t m tag st)
  then show ?case by simp
next
  case (2 err content calls fs t m tag st)
  obtain e s where r: "callReply tag (msg_reply m) err content st = (e, s)"
    by (cases "callReply tag (msg_reply m) err content st")
  show ?case
  proof (cases e)
    case None
    from "2.IH" [OF r [symmetric] None] show ?thesis
      by (simp add: parked_callReply r None)
  next
    case (Some x)
    then show ?thesis by (simp add: parked_callReply r)
  qed
next
  case (3 calls f fs t m tag st)
  then show ?case by (simp add: parked_basic)
next
  case (4 calls t m tag st)
  then show ?case by simp
qed

lemma parked_recomplete:
  assumes "\<And>s. cb m (s\<lparr>immediates := ts, startingQueue := q\<rparr>) = (cb m s)\<lparr>immediates := ts, startingQueue := q\<rparr>"
  shows "recomplete cb tag m calls (st\<lparr>immediates := ts, startingQueue := q\<rparr>) =
     apsnd (\<lambda>s. s\<lparr>immediates := ts, startingQueue := q\<rparr>) (recomplete cb tag m calls st)"
proof (induction calls arbitrary: st)
  case Nil
  then show ?case by simp
next
  case (Cons c calls)
  show ?case
  proof (cases c)
    case CallNext
    with Cons show ?thesis by (simp add: assms)
  next
    case (CallReply err content)
    obtain e s where r: "callReply tag (msg_reply m) err content st = (e, s)"
      by (cases "callReply tag (msg_reply m) err content st")
    with Cons show ?thesis
      by (cases e) (simp_all add: CallReply parked_callReply)
  qed
qed

lemma parked_onDrop:
  "onDrop env a (st\<lparr>immediates := ts, startingQueue := q\<rparr>) = (onDrop env a st)\<lparr>immediates := ts, startingQueue := q\<rparr>"
  by (simp add: onDrop_def parked_basic Let_def split: option.splits)

lemma parked_onFound:
  "onFound env a aid (st\<lparr>immediates := ts, startingQueue := q\<rparr>) = (onFound env a aid st)\<lparr>immediates := ts, startingQueue := q\<rparr>"
  by (simp add: onFound_def parked_basic parked_onDrop Let_def eff_def makeLog_def
      split: option.splits scope.splits)

lemma parked_swap:
  "st\<lparr>immediates := ts, startingQueue := q, listeners := ls\<rparr> =
     st\<lparr>listeners := ls\<rparr>\<lparr>immediates := ts, startingQueue := q\<rparr>"
  "st\<lparr>immediates := ts, startingQueue := q, heap := h\<rparr> =
     st\<lparr>heap := h\<rparr>\<lparr>immediates := ts, startingQueue := q\<rparr>"
  by simp_all

lemma parked_fireFound:
  "fireFound env ls aid (st\<lparr>immediates := ts, startingQueue := q\<rparr>) =
     (fireFound env ls aid st)\<lparr>immediates := ts, startingQueue := q\<rparr>"
  by (induction env ls aid st rule: fireFound.induct) (simp_all add: parked_swap parked_onFound)

lemma parked_searchActor:
  "searchActor env aid a (st\<lparr>immediates := ts, startingQueue := q\<rparr>) =
     (searchActor env aid a st)\<lparr>immediates := ts, startingQueue := q\<rparr>"
  by (simp add: searchActor_def emitFound_def Let_def parked_basic parked_swap parked_fireFound
      split: option.splits)

lemma parked_internalSend:
  "internalSend env a (st\<lparr>immediates := ts, startingQueue := q\<rparr>) =
     (internalSend env a st)\<lparr>immediates := ts, startingQueue := q\<rparr>"
  by (simp add: internalSend_def parked_basic parked_searchActor split: option.splits)

lemma parked_afterReqOut:
  "afterReqOut env a cb (st\<lparr>immediates := ts, startingQueue := q\<rparr>) =
     (afterReqOut env a cb st)\<lparr>immediates := ts, startingQueue := q\<rparr>"
  by (simp add: afterReqOut_def Let_def parked_basic parked_swap parked_internalSend
      split: option.splits)

lemma parked_chain:
  assumes "\<And>m s. cb m (s\<lparr>immediates := ts, startingQueue := q\<rparr>) = (cb m s)\<lparr>immediates := ts, startingQueue := q\<rparr>"
  shows "withCompletion cb tag (processMiddlewares t m r tag (st\<lparr>immediates := ts, startingQueue := q\<rparr>)) =
     apsnd (\<lambda>s. s\<lparr>immediates := ts, startingQueue := q\<rparr>)
       (withCompletion cb tag (processMiddlewares t m r tag st))"
proof -
  obtain c rest st1 where n: "next_mw [CallNext] (middlewares st) t (set_reply r m) tag st = (c, rest, st1)"
    by (cases "next_mw [CallNext] (middlewares st) t (set_reply r m) tag st")
  show ?thesis
    by (cases c)
      (simp_all add: processMiddlewares_def withCompletion_def Let_def parked_next_mw n
        parked_recomplete [where cb = cb, OF assms] assms del: next_mw.simps)
qed

lemma parked_send:
  assumes "started st"
  shows "send env x (st\<lparr>immediates := ts, startingQueue := q\<rparr>) =
     (send env x st)\<lparr>immediates := ts, startingQueue := q\<rparr>"
proof -
  have n: "normalise (st\<lparr>immediates := ts, startingQueue := q\<rparr>) = normalise st"
    by simp
  have b: "buildReq env (st\<lparr>immediates := ts, startingQueue := q\<rparr>) = buildReq env st"
    by (simp add: buildReq_def fun_eq_iff property_def)
  have u: "uncaught (apsnd (\<lambda>s. s\<lparr>immediates := ts, startingQueue := q\<rparr>) r) =
      (uncaught r)\<lparr>immediates := ts, startingQueue := q\<rparr>" for r
    by (cases r) (simp add: uncaught_def parked_basic split: option.splits)
  have c: "afterReqOut env a cb (setReplyAt a JUndefined (s\<lparr>immediates := ts, startingQueue := q\<rparr>)) =
      (afterReqOut env a cb (setReplyAt a JUndefined s))\<lparr>immediates := ts, startingQueue := q\<rparr>" for a cb s
    by (simp add: parked_basic parked_afterReqOut)
  from assms show ?thesis
    by (simp add: send_def Let_def n b parked_swap parked_basic u
        parked_chain [of "\<lambda>m s. afterReqOut env _ _ (setReplyAt _ JUndefined s)", OF c])
qed

lemma send_started_parts:
  assumes "started st"
  shows "immediates (send env x st) = immediates st"
    and "startingQueue (send env x st) = startingQueue st"
    and "started (send env x st)"
proof -
  from parked_send [OF assms, where ts = "immediates st" and q = "startingQueue st" and env = env and x = x]
  have e: "send env x st = (send env x st)\<lparr>immediates := immediates st, startingQueue := startingQueue st\<rparr>"
    by simp
  show "immediates (send env x st) = immediates st"
    by (subst e) simp
  show "startingQueue (send env x st) = startingQueue st"
    by (subst e) simp
  from assms show "started (send env x st)" by simp
qed

lemma parked_send_immediates:
  assumes "started st"
  shows "send env x (st\<lparr>immediates := ts\<rparr>) = (send env x st)\<lparr>immediates := ts\<rparr>"
proof -
  have "(send env x st)\<lparr>immediates := ts, startingQueue := startingQueue st\<rparr> =
      (send env x st)\<lparr>immediates := ts, startingQueue := startingQueue (send env x st)\<rparr>"
    by (simp only: send_started_parts(2) [OF assms])
  with parked_send [OF assms, where ts = ts and q = "startingQueue st" and env = env and x = x]
  show ?thesis by simp
qed

lemma queued_sends_run:
  "started st \<Longrightarrow> immediates st = map TSend q \<Longrightarrow> length envs = length q \<Longrightarrow>
   run (map (\<lambda>e. (e, NextImmediate)) envs) st =
     fold (\<lambda>(e, x). send e x) (zip envs q) (st\<lparr>immediates := []\<rparr>)"
proof (induction q arbitrary: envs st)
  case Nil
  then show ?case by simp
next
  case (Cons x q)
  from Cons.prems(3) obtain e es where envs: "envs = e # es" and l: "length es = length q"
    by (cases envs) simp_all
  let ?s = "send e x (st\<lparr>immediates := map TSend q\<rparr>)"
  have st1: "started (st\<lparr>immediates := map TSend q\<rparr>)" using Cons.prems(1) by simp
  have s: "step e NextImmediate st = ?s"
    using Cons.prems(2) by (simp add: step_def runTask_def)
  have i: "immediates ?s = map TSend q" and t: "started ?s"
    using send_started_parts [OF st1, of e x] by simp_all
  have "?s\<lparr>immediates := []\<rparr> = send e x (st\<lparr>immediates := []\<rparr>)"
    by (simp add: parked_send_immediates [OF Cons.prems(1)])
  with Cons.IH [OF t i l] show ?case
    by (simp add: envs s)
qed

lemma sends_started_parts:
  "started st \<Longrightarrow>
   started (fold (\<lambda>(e, x). send e x) exs st) \<and>
   immediates (fold (\<lambda>(e, x). send e x) exs st) = immediates st \<and>
   startingQueue (fold (\<lambda>(e, x). send e x) exs st) = startingQueue st"
proof (induction exs arbitrary: st)
  case Nil
  then show ?case by simp
next
  case (Cons ex exs)
  obtain e x where ex: "ex = (e, x)" by (cases ex)
  from send_started_parts [OF Cons.prems, of e x] Cons.IH [of "send e x st"] show ?case
    by (simp add: ex)
qed

section \<open>Calls of the interface while the container starts\<close>

lemma quiet_onDrop [simp]:
  "immediates (onDrop env a st) = immediates st"
  "startingQueue (onDrop env a st) = startingQueue st"
  "properties (onDrop env a st) = properties st"
  by (simp_all add: onDrop_def basics Let_def split: option.splits)

lemma quiet_onFound [simp]:
  "immediates (onFound env a aid st) = immediates st"
  "startingQueue (onFound env a aid st) = startingQueue st"
  "properties (onFound env a aid st) = properties st"
  by (simp_all add: onFound_def eff_def makeLog_def Let_def split: option.splits scope.splits)

lemma quiet_fireFound [simp]:
  "immediates (fireFound env ls aid st) = immediates st"
  "startingQueue (fireFound env ls aid st) = startingQueue st"
  "properties (fireFound env ls aid st) = properties st"
  by (induction env ls aid st rule: fireFound.induct; simp)+

lemma quiet_addActor [simp]:
  "immediates (addActor env aid h st) = immediates st"
  "startingQueue (addActor env aid h st) = startingQueue st"
  "properties (addActor env aid h st) = properties st"
  by (simp_all add: addActor_def actors_add_def onActorAdded_def emitFound_def basics Let_def)

lemma quiet_removeActor [simp]:
  "immediates (removeActor aid st) = immediates st"
  "startingQueue (removeActor aid st) = startingQueue st"
  "properties (removeActor aid st) = properties st"
  by (simp_all add: removeActor_def actors_remove_def onActorRemoved_def basics
      split: option.splits)

lemma quiet_set_property [simp]:
  "immediates (set_property k v st) = immediates st"
  "startingQueue (set_property k v st) = startingQueue st"
  "properties (set_property k v st) = properties st"
  by (simp_all add: set_property_def basics)

lemma step_send:
  "immediates (step env (ApiSend x) st) = immediates st"
  "startingQueue (step env (ApiSend x) st) =
     startingQueue st @ (if started st then [] else [normalise st x])"
  "\<not> started st \<Longrightarrow> properties (step env (ApiSend x) st) = properties st"
proof -
  show "immediates (step env (ApiSend x) st) = immediates st"
  proof (cases "started st")
    case True
    from send_started_parts(1) [OF this] show ?thesis by (simp add: step_def)
  next
    case False
    then show ?thesis by (simp add: step_def send_def Let_def basics)
  qed
  show "startingQueue (step env (ApiSend x) st) =
     startingQueue st @ (if started st then [] else [normalise st x])"
  proof (cases "started st")
    case True
    from send_started_parts(2) [OF this] True show ?thesis by (simp add: step_def)
  next
    case False
    then show ?thesis by (simp add: step_def send_def Let_def basics)
  qed
  assume "\<not> started st"
  then show "properties (step env (ApiSend x) st) = properties st"
    by (simp add: step_def send_def Let_def basics)
qed

lemma step_call:
  assumes "isCall ev"
  shows "life (step env ev st) = life st"
    and "immediates (step env ev st) = immediates st"
    and "startingQueue (step env ev st) =
           startingQueue st @ (if started st then [] else map (normalise st) (sent ev))"
    and "length (heap (step env ev st)) = length (heap st) + (if started st then length (sent ev) else 0)"
    and "\<not> started st \<Longrightarrow> properties (step env ev st) = properties st"
proof -
  from assms show "life (step env ev st) = life st"
    by (intro step_life) (cases ev; simp)
  from assms show "immediates (step env ev st) = immediates st"
    by (cases ev) (simp_all add: step_send, simp_all add: step_def use_def)
  from assms show "startingQueue (step env ev st) =
           startingQueue st @ (if started st then [] else map (normalise st) (sent ev))"
    by (cases ev) (simp_all add: step_send, simp_all add: step_def use_def)
  from assms show "length (heap (step env ev st)) = length (heap st) + (if started st then length (sent ev) else 0)"
    by (cases ev) (simp_all add: step_def)
  assume "\<not> started st"
  with assms show "properties (step env ev st) = properties st"
    by (cases ev) (simp_all add: step_send, simp_all add: step_def use_def)
qed

lemma run_calls_all:
  "list_all (\<lambda>x. isCall (snd x)) evs \<Longrightarrow>
   life (run evs st) = life st \<and> immediates (run evs st) = immediates st \<and>
   (started st \<longrightarrow> startingQueue (run evs st) = startingQueue st) \<and>
   (\<not> started st \<longrightarrow>
      startingQueue (run evs st) =
        startingQueue st @ map (normalise st) (concat (map (\<lambda>x. sent (snd x)) evs)) \<and>
      length (heap (run evs st)) = length (heap st) \<and>
      properties (run evs st) = properties st)"
proof (induction evs arbitrary: st)
  case Nil
  then show ?case by simp
next
  case (Cons x evs)
  obtain env ev where x: "x = (env, ev)" by (cases x)
  let ?s = "step env ev st"
  from Cons.prems have c: "isCall ev" and r: "list_all (\<lambda>x. isCall (snd x)) evs"
    by (simp_all add: x)
  note ih = Cons.IH [OF r, of ?s]
  note sc = step_call [OF c, where env = env and st = st]
  from sc(1) have st: "started ?s = started st" by (simp add: life_def)
  have l: "life (run evs ?s) = life st" using ih sc(1) by simp
  have i: "immediates (run evs ?s) = immediates st" using ih sc(2) by simp
  show ?case
  proof (cases "started st")
    case True
    with ih st sc(3) l i show ?thesis by (simp add: x)
  next
    case False
    have "normalise ?s = normalise st"
      by (rule normalise_cong) (rule sc(5) [OF False])
    with False ih st sc(3,4) sc(5) [OF False] l i show ?thesis by (simp add: x)
  qed
qed

lemma run_calls:
  assumes "list_all (\<lambda>x. isCall (snd x)) evs"
  shows "life (run evs st) = life st"
    and "immediates (run evs st) = immediates st"
    and "started st \<Longrightarrow> startingQueue (run evs st) = startingQueue st"
    and "\<not> started st \<Longrightarrow>
         startingQueue (run evs st) =
           startingQueue st @ map (normalise st) (concat (map (\<lambda>x. sent (snd x)) evs))"
    and "\<not> started st \<Longrightarrow> length (heap (run evs st)) = length (heap st)"
    and "\<not> started st \<Longrightarrow> properties (run evs st) = properties st"
  using run_calls_all [OF assms, of st] by simp_all

lemma start_pending_life:
  "life s = life st \<Longrightarrow> pending (start p c s) = pending (start p c st)"
  by (simp add: start_def life_def basics Let_def)

section \<open>The claims\<close>

text \<open>
  C2. The claim: when a request is dropped after a first resolution, the retry resolves the
  bare target the caller passed to \<^verbatim>\<open>send\<close>. The drop listener does call \<^verbatim>\<open>onDrop\<close> with
  the request object of \<^verbatim>\<open>send\<close>, as its comment says, but \<^verbatim>\<open>internalSend\<close> has written the
  resolved AID into that same object: in the scenario the first search is for \<^verbatim>\<open>pong\<close> and
  the search of the retry is for \<^verbatim>\<open>pong/1\<close>.
\<close>

theorem retry_searches_resolved_aid:
  "filter searched (effects (run dropScenario running)) =
     [NotifySearched ''pong'', NotifySearched ''pong/1'']"
  by (simp add: dropScenario_def running_def init_def step_def actors_add_def onActorAdded_def
      emitFound_def send_def askPong_def normalise_def buildReq_def validate_message_def
      processMiddlewares_def withCompletion_def uncaught_def setReplyAt_def afterReqOut_def
      internalSend_def searchActor_def actors_pick_def
      actors_get_def aid_isBare_def aid_bare_def env0_def env1_def basics Let_def pongRemote_def
      emitDrop_def onDrop_def onFound_def pingReq_def runTask_def)

text \<open>
  C3. The claim: every response of \<^verbatim>\<open>onReq\<close>, also the one a middleware builds through the
  transient reply function, carries the id, the sender (as \<^verbatim>\<open>to\<close>) and the date of the
  request. When a middleware of an incoming request calls \<^verbatim>\<open>msg.reply\<close>, the closure reads
  the undeclared variable \<^verbatim>\<open>date\<close>: a \<^verbatim>\<open>ReferenceError\<close> leaves \<^verbatim>\<open>onReq\<close> and the transport's
  \<^verbatim>\<open>reply\<close> is never called, so no response is produced on that path.
\<close>

theorem middleware_reply_throws:
  "effects (onReq pingReq (init\<lparr>registry := [pongHere], middlewares := [forbid]\<rparr>)) =
     [Log ''trace'' ''hub-3'',
      MwCalled REQ_IN (MReq (pingReq\<lparr>r_reply := JFun (MReply (Some ''pong/1''))\<rparr>)),
      Thrown ReferenceError]"
  by (simp add: onReq_def processMiddlewares_def withCompletion_def uncaught_def callReply_def
      actors_get_def pongHere_def forbid_def init_def basics pingReq_def Let_def)

text \<open>
  C4. The claim: a \<^verbatim>\<open>send\<close> with a callback and a timeout that is 0 or absent uses the
  `default send timeout' (30000 ms). With the callback in fifth position and the timeout
  0, no overload applies and \<^verbatim>\<open>timeout || _properties['max send timeout']\<close> gives 300000:
  the request and its timer carry the `max send timeout'.
\<close>

theorem send_timeout_zero_with_callback:
  "map r_timeout (heap (send env0 (askPong ''ping'' (JNum 0)) running)) = [JNum 300000] \<and>
   timers (send env0 (askPong ''ping'' (JNum 0)) running) = [(JNum 300000, TTimeout 0)]"
  by (simp add: send_def running_def init_def askPong_def normalise_def buildReq_def
      validate_message_def processMiddlewares_def withCompletion_def uncaught_def
      setReplyAt_def afterReqOut_def internalSend_def
      searchActor_def actors_pick_def aid_isBare_def aid_bare_def env0_def basics Let_def)

theorem send_timeout_zero_with_callback_witness:
  "timers (send env0 (askPong ''ping'' (JNum 0)) running) \<noteq> [(JNum 30000, TTimeout 0)]"
  using send_timeout_zero_with_callback by simp

text \<open>
  C5. The claim: \<^verbatim>\<open>set(key, value)\<close> stores the value in the properties for every string key
  other than \<^verbatim>\<open>discoveryAddrs\<close>, without calling discovery. The test of the source assigns
  instead of comparing, so for the key \<^verbatim>\<open>retry delay\<close> discovery is called with the value
  and the property keeps its old value 10.
\<close>

theorem set_retry_delay_calls_discovery:
  "set_property (JStr ''retry delay'') (JNum 50) init = eff (DiscoverySetAddrs (JNum 50)) init \<and>
   property (set_property (JStr ''retry delay'') (JNum 50) init) ''retry delay'' = JNum 10"
  by (simp add: set_property_def init_def basics)

text \<open>
  C6, as stated: a \<^verbatim>\<open>send\<close> after \<^verbatim>\<open>stop\<close> has completed only logs and enqueues nothing.
  After a start and a stop the container is not started and the queue is empty; the
  \<^verbatim>\<open>send\<close> that follows puts its arguments into the starting queue.
\<close>

theorem send_after_stop_enqueues:
  "\<not> started (run startThenStop init) \<and> startingQueue (run startThenStop init) = [] \<and>
   startingQueue (send env1 (askPong ''ping'' (JNum 5000)) (run startThenStop init)) =
     [askPong ''ping'' (JNum 5000)]"
  by (simp add: startThenStop_def init_def step_def start_def stop_def complete_def
      validate_startParams_def optional_def runTask_def processStartingQueue_def send_def
      normalise_def askPong_def basics Let_def)

text \<open>
  C6, amended: whenever the container is not started, before \<^verbatim>\<open>start\<close> completes as well as
  after \<^verbatim>\<open>stop\<close> has completed, \<^verbatim>\<open>send\<close> logs and appends its normalised arguments to the
  starting queue; it changes nothing else, so nothing is delivered.
\<close>

theorem send_when_not_started:
  "\<not> started st \<Longrightarrow>
   send env args st =
     (makeLog ''trace'' ''hub-46'' st)\<lparr>startingQueue := startingQueue st @ [normalise st args]\<rparr>"
  by (simp add: send_def Let_def)

theorem send_when_not_started_witness:
  "\<not> started init \<and>
   startingQueue (send env0 (askPong ''ping'' (JNum 5000)) init) = [askPong ''ping'' (JNum 5000)] \<and>
   effects (send env0 (askPong ''ping'' (JNum 5000)) init) = [Log ''trace'' ''hub-46''] \<and>
   heap (send env0 (askPong ''ping'' (JNum 5000)) init) = []"
proof -
  have h: "\<not> started init" by (simp add: init_def)
  show ?thesis
    using h send_when_not_started [OF h, of env0 "askPong ''ping'' (JNum 5000)"]
    by (simp add: normalise_def askPong_def basics init_def)
qed

text \<open>
  C7, as stated: the queue is drained exactly once and no entry is ever re-submitted twice.
  One \<^verbatim>\<open>send\<close> is queued, the container is started and then stopped before the immediate of
  the drain runs. The drain schedules the queued \<^verbatim>\<open>send\<close> and empties the queue; that
  \<^verbatim>\<open>send\<close> finds the container not started and puts its arguments back into the queue,
  nothing is sent; after the next start the drain schedules the same entry a second time.
\<close>

theorem queued_send_resubmitted_twice:
  "immediates (run stopBeforeDrain init) = [TSend (askPong ''one'' (JNum 5000))] \<and>
   startingQueue (run stopBeforeDrain init) = [] \<and>
   immediates (run (stopBeforeDrain @ [(env1, NextImmediate)]) init) = [] \<and>
   startingQueue (run (stopBeforeDrain @ [(env1, NextImmediate)]) init) =
     [askPong ''one'' (JNum 5000)] \<and>
   heap (run (stopBeforeDrain @ [(env1, NextImmediate)]) init) = [] \<and>
   immediates (run (stopBeforeDrain @ [(env1, NextImmediate)] @ startAgain) init) =
     [TSend (askPong ''one'' (JNum 5000))]"
  by (simp add: stopBeforeDrain_def startAgain_def init_def step_def start_def stop_def
      complete_def validate_startParams_def optional_def runTask_def processStartingQueue_def
      send_def normalise_def askPong_def basics Let_def)

text \<open>
  C7, amended: the container is idle (not started, not locked, nothing scheduled), with
  any queue left from before. \<^verbatim>\<open>start\<close> is called with any arguments that make it hand its
  callback to the transport (a parameter object, nothing, or only a callback); the
  transport and discovery call back, the immediate of the callback of \<^verbatim>\<open>start\<close>, if there
  is one, and the immediate of the drain run. Before, between and after these steps any
  calls of the interface other than \<^verbatim>\<open>start\<close> and \<^verbatim>\<open>stop\<close> are made: \<^verbatim>\<open>send\<close>, \<^verbatim>\<open>use\<close>,
  \<^verbatim>\<open>set\<close>, \<^verbatim>\<open>addActor\<close>, \<^verbatim>\<open>removeActor\<close>. The sends made before discovery has called back
  create no request: their normalised arguments are in the queue, after what it held, in
  the order of the calls. After the drain the queue is empty and the immediates are one
  \<^verbatim>\<open>send\<close> per entry, in insertion order. When these immediates have run, with no stop in
  between, the state is the one that sending the entries in that order produces on the
  started container: each entry is sent exactly once, the queue is still empty and
  nothing is scheduled again.
\<close>

theorem starting_queue_drained_in_order:
  assumes ns: "\<not> started st" and nl: "\<not> locked st" and np: "pending st = []"
    and ni: "immediates st = []"
    and h: "pending (start p c st) = [KRemoteStarted params cb]"
    and calls: "list_all (\<lambda>x. isCall (snd x)) (evs1 @ evs2 @ evs3 @ evs4 @ evs5)"
    and len: "length envs =
      length (startingQueue st) + length (concat (map (\<lambda>x. sent (snd x)) (evs1 @ evs2 @ evs3)))"
  shows "let s1 = run evs1 st;
             s2 = run evs2 (step e1 (ApiStart p c) s1);
             s3 = run evs3 (step e2 (Completes (KRemoteStarted params cb)) s2);
             s4 = step e3 (Completes (KDiscoveryStarted cb)) s3;
             s5 = run evs4 (if truthy cb then step e4 NextImmediate s4 else s4);
             s6 = run evs5 (step e5 NextImmediate s5);
             s7 = run (map (\<lambda>e. (e, NextImmediate)) envs) s6;
             q = startingQueue st @
                 map (normalise st) (concat (map (\<lambda>x. sent (snd x)) (evs1 @ evs2 @ evs3)))
         in startingQueue s3 = q \<and> length (heap s3) = length (heap st) \<and> \<not> started s3 \<and>
            started s6 \<and> startingQueue s6 = [] \<and> immediates s6 = map TSend q \<and>
            s7 = fold (\<lambda>(e, x). send e x) (zip envs q) (s6\<lparr>immediates := []\<rparr>) \<and>
            started s7 \<and> startingQueue s7 = [] \<and> immediates s7 = []"
proof -
  let ?sent = "\<lambda>evs. map (normalise st) (concat (map (\<lambda>x. sent (snd x)) evs))"
  define q where "q = startingQueue st @ ?sent (evs1 @ evs2 @ evs3)"
  define s1 where "s1 = run evs1 st"
  define t1 where "t1 = step e1 (ApiStart p c) s1"
  define s2 where "s2 = run evs2 t1"
  define t2 where "t2 = step e2 (Completes (KRemoteStarted params cb)) s2"
  define s3 where "s3 = run evs3 t2"
  define s4 where "s4 = step e3 (Completes (KDiscoveryStarted cb)) s3"
  define t4 where "t4 = (if truthy cb then step e4 NextImmediate s4 else s4)"
  define s5 where "s5 = run evs4 t4"
  define t5 where "t5 = step e5 NextImmediate s5"
  define s6 where "s6 = run evs5 t5"
  define s7 where "s7 = run (map (\<lambda>e. (e, NextImmediate)) envs) s6"
  from calls have c1: "list_all (\<lambda>x. isCall (snd x)) evs1"
    and c2: "list_all (\<lambda>x. isCall (snd x)) evs2"
    and c3: "list_all (\<lambda>x. isCall (snd x)) evs3"
    and c4: "list_all (\<lambda>x. isCall (snd x)) evs4"
    and c5: "list_all (\<lambda>x. isCall (snd x)) evs5"
    by simp_all
  have l1: "life s1 = life st" and i1: "immediates s1 = []"
    and q1: "startingQueue s1 = startingQueue st @ ?sent evs1"
    and h1: "length (heap s1) = length (heap st)" and p1: "properties s1 = properties st"
    unfolding s1_def using run_calls [OF c1, of st] ns ni by simp_all
  from l1 ns nl np have f1: "\<not> started s1" "\<not> locked s1" "pending s1 = []"
    by (simp_all add: life_def)
  have "pending (start p c s1) = [KRemoteStarted params cb]"
    using start_pending_life [OF l1] h by simp
  from start_handed_out [OF f1 this]
  have t1: "t1 = s1\<lparr>locked := True,
        netIp := (if truthy (getProp params ''ip'') then getProp params ''ip'' else netIp s1),
        effects := effects s1 @ [Log ''trace'' ''hub-16'', RemoteStart],
        pending := [KRemoteStarted params cb]\<rparr>"
    by (simp add: t1_def step_def)
  have ft1: "\<not> started t1" "pending t1 = [KRemoteStarted params cb]" "immediates t1 = []"
    "startingQueue t1 = startingQueue st @ ?sent evs1" "length (heap t1) = length (heap st)"
    "properties t1 = properties st"
    using f1 i1 q1 h1 p1 by (simp_all add: t1)
  have n1: "normalise t1 = normalise st"
    by (rule normalise_cong) (rule ft1(6))
  have l2: "life s2 = life t1" and i2: "immediates s2 = []"
    and q2: "startingQueue s2 = startingQueue st @ ?sent evs1 @ ?sent evs2"
    and h2: "length (heap s2) = length (heap st)" and p2: "properties s2 = properties st"
    unfolding s2_def using run_calls [OF c2, of t1] ft1 by (simp_all add: n1)
  from l2 ft1 have f2: "\<not> started s2" "pending s2 = [KRemoteStarted params cb]"
    by (simp_all add: life_def)
  have ft2: "\<not> started t2" "pending t2 = [KDiscoveryStarted cb]" "immediates t2 = []"
    "startingQueue t2 = startingQueue st @ ?sent evs1 @ ?sent evs2"
    "length (heap t2) = length (heap st)" "properties t2 = properties st"
    unfolding t2_def using f2 i2 q2 h2 p2
    by (simp_all add: step_def complete_def eff_def)
  have n2: "normalise t2 = normalise st"
    by (rule normalise_cong) (rule ft2(6))
  have l3: "life s3 = life t2" and i3: "immediates s3 = []"
    and q3: "startingQueue s3 = q"
    and h3: "length (heap s3) = length (heap st)"
    unfolding s3_def q_def using run_calls [OF c3, of t2] ft2 by (simp_all add: n2)
  from l3 ft2 have f3: "\<not> started s3" "pending s3 = [KDiscoveryStarted cb]"
    by (simp_all add: life_def)
  have f4: "started s4" "startingQueue s4 = q"
    "immediates s4 = (if truthy cb then [TCall cb] else []) @ [TProcessStartingQueue]"
    unfolding s4_def using f3 i3 q3
    by (simp_all add: step_def complete_def basics Let_def)
  have ft4: "started t4" "startingQueue t4 = q" "immediates t4 = [TProcessStartingQueue]"
    unfolding t4_def using f4
    by (simp_all add: step_def runTask_def basics)
  have l5: "life s5 = life t4" and f5: "startingQueue s5 = q"
    "immediates s5 = [TProcessStartingQueue]"
    unfolding s5_def using run_calls [OF c4, of t4] ft4 by simp_all
  from l5 ft4 have st5: "started s5" by (simp add: life_def)
  have ft5: "started t5" "startingQueue t5 = []" "immediates t5 = map TSend q"
    unfolding t5_def using st5 f5
    by (simp_all add: step_def runTask_def processStartingQueue_eq)
  have l6: "life s6 = life t5" and q6: "startingQueue s6 = []"
    and i6: "immediates s6 = map TSend q"
    unfolding s6_def using run_calls [OF c5, of t5] ft5 by simp_all
  from l6 ft5 have st6: "started s6" by (simp add: life_def)
  from len have l: "length envs = length q" by (simp add: q_def)
  have s7: "s7 = fold (\<lambda>(e, x). send e x) (zip envs q) (s6\<lparr>immediates := []\<rparr>)"
    unfolding s7_def by (rule queued_sends_run [OF st6 i6 l])
  have "started (s6\<lparr>immediates := []\<rparr>)" using st6 by simp
  from sends_started_parts [OF this, of "zip envs q"]
  have f7: "started s7" "startingQueue s7 = []" "immediates s7 = []"
    by (simp_all add: s7 q6)
  from q3 h3 f3(1) st6 q6 i6 s7 f7 show ?thesis
    unfolding Let_def q_def s1_def t1_def s2_def t2_def s3_def s4_def t4_def s5_def t5_def
      s6_def s7_def
    by blast
qed

theorem starting_queue_drained_in_order_witness:
  "\<not> started init \<and> \<not> locked init \<and> pending init = [] \<and> immediates init = [] \<and>
   pending (start (JObj [(''stats'', JStr ''on'')]) (JFun (UserFn 2)) init) =
     [KRemoteStarted (JObj [(''stats'', JStr ''on'')]) (JFun (UserFn 2))] \<and>
   list_all (\<lambda>x. isCall (snd x))
     [(env0, ApiSend (askPong ''one'' (JNum 5000))),
      (env0, ApiAddActor ''pong'' (a_onMessage pongHere)),
      (env0, ApiSend (askPong ''two'' (JNum 5000))),
      (env1, ApiSend (askPong ''three'' (JNum 5000)))] \<and>
   (let s1 = run [(env0, ApiSend (askPong ''one'' (JNum 5000)))] init;
        s2 = run [(env0, ApiAddActor ''pong'' (a_onMessage pongHere)),
                  (env0, ApiSend (askPong ''two'' (JNum 5000)))]
               (step env0 (ApiStart (JObj [(''stats'', JStr ''on'')]) (JFun (UserFn 2))) s1);
        s3 = run [(env1, ApiSend (askPong ''three'' (JNum 5000)))]
               (step env0 (Completes (KRemoteStarted (JObj [(''stats'', JStr ''on'')])
                  (JFun (UserFn 2)))) s2);
        s4 = step env1 (Completes (KDiscoveryStarted (JFun (UserFn 2)))) s3;
        s6 = step env1 NextImmediate (step env1 NextImmediate s4);
        s7 = run [(env0, NextImmediate), (env1, NextImmediate), (env1, NextImmediate)] s6
    in startingQueue s3 = map snd threeSends \<and> heap s3 = [] \<and>
       immediates s6 = map (TSend \<circ> snd) threeSends \<and>
       s7 = fold (\<lambda>(e, x). send e x) (zip [env0, env1, env1] (map snd threeSends))
              (s6\<lparr>immediates := []\<rparr>) \<and>
       started s7 \<and> startingQueue s7 = [] \<and> immediates s7 = [] \<and>
       map r_content (heap s7) = [JStr ''one'', JStr ''two'', JStr ''three''])"
proof -
  have h1: "\<not> started init" and h2: "\<not> locked init" and h3: "pending init = []"
    and h4: "immediates init = []"
    by (simp_all add: init_def)
  have h5: "pending (start (JObj [(''stats'', JStr ''on'')]) (JFun (UserFn 2)) init) =
      [KRemoteStarted (JObj [(''stats'', JStr ''on'')]) (JFun (UserFn 2))]"
    by (simp add: start_def init_def validate_startParams_def optional_def basics Let_def)
  have h6: "list_all (\<lambda>x. isCall (snd x))
     ([(env0, ApiSend (askPong ''one'' (JNum 5000)))] @
      [(env0, ApiAddActor ''pong'' (a_onMessage pongHere)),
       (env0, ApiSend (askPong ''two'' (JNum 5000)))] @
      [(env1, ApiSend (askPong ''three'' (JNum 5000)))] @ [] @ [])"
    by simp
  have h7: "length [env0, env1, env1] = length (startingQueue init) +
      length (concat (map (\<lambda>x. sent (snd x))
        ([(env0, ApiSend (askPong ''one'' (JNum 5000)))] @
         [(env0, ApiAddActor ''pong'' (a_onMessage pongHere)),
          (env0, ApiSend (askPong ''two'' (JNum 5000)))] @
         [(env1, ApiSend (askPong ''three'' (JNum 5000)))])))"
    by (simp add: init_def)
  have n: "normalise init (askPong x (JNum 5000)) = askPong x (JNum 5000)" for x
    by (simp add: normalise_def askPong_def)
  have q: "startingQueue init = []" "heap init = []" by (simp_all add: init_def)
  note c = starting_queue_drained_in_order [OF h1 h2 h3 h4 h5 h6 h7,
      where ?e1.0 = env0 and ?e2.0 = env0 and ?e3.0 = env1 and ?e4.0 = env1 and ?e5.0 = env1]
  have r: "map r_content (heap (run
      [(env0, ApiSend (askPong ''one'' (JNum 5000))),
       (env0, ApiStart (JObj [(''stats'', JStr ''on'')]) (JFun (UserFn 2))),
       (env0, ApiAddActor ''pong'' (a_onMessage pongHere)),
       (env0, ApiSend (askPong ''two'' (JNum 5000))),
       (env0, Completes (KRemoteStarted (JObj [(''stats'', JStr ''on'')]) (JFun (UserFn 2)))),
       (env1, ApiSend (askPong ''three'' (JNum 5000))),
       (env1, Completes (KDiscoveryStarted (JFun (UserFn 2)))),
       (env1, NextImmediate), (env1, NextImmediate),
       (env0, NextImmediate), (env1, NextImmediate), (env1, NextImmediate)] init)) =
      [JStr ''one'', JStr ''two'', JStr ''three'']"
    by (simp add: init_def askPong_def pongHere_def env0_def env1_def machine basics Let_def)
  from c r h1 h2 h3 h4 h5 show ?thesis
    by (auto simp add: Let_def n q threeSends_def)
qed

text \<open>
  C9. The claim: when an actor is removed from the registry, the facade emits
  \<^verbatim>\<open>actor removed\<close> with the aid of the removed actor. The listener receives the aid and
  emits the event with no argument.
\<close>

theorem actor_removed_without_aid:
  "effects (step env0 (Departed ''pong/1'' REMOTE) (init\<lparr>registry := [pongRemote]\<rparr>)) =
     [FacadeEmit ''actor removed'' []]"
  by (simp add: step_def actors_remove_def actors_get_def onActorRemoved_def pongRemote_def
      init_def basics)





text \<open>
  C1, as stated: for every request sent with a callback, the callback is invoked at most
  once. The completion callback of a middleware chain runs every time \<^verbatim>\<open>next\<close> is called
  with no middleware left. A middleware that calls \<^verbatim>\<open>next\<close> twice for an incoming response
  makes \<^verbatim>\<open>onRes\<close> schedule the sender's callback twice, and both calls are made; a
  middleware of the outgoing request that calls \<^verbatim>\<open>msg.reply\<close>, which is the sender's
  callback, and then \<^verbatim>\<open>next\<close> has the callback called by the reply and again with the
  response.
\<close>

theorem callback_called_twice:
  "filter (callFor 0) (effects (run (answered twiceOnResponse) init)) =
     [Call (Some 0) (JFun (UserFn 1)) [AVal JNull, ARes pongRes],
      Call (Some 0) (JFun (UserFn 1)) [AVal JNull, ARes pongRes]] \<and>
   filter (callFor 0) (effects (run (answered replyThenNext) init)) =
     [Call (Some 0) (JFun (UserFn 1)) [AVal JNull, AVal (JStr ''cached'')],
      Call (Some 0) (JFun (UserFn 1)) [AVal JNull, ARes pongRes]]"
  by (simp add: answered_def twiceOnResponse_def replyThenNext_def init_def askPong_def
      pongRes_def pongRemote_def env0_def env1_def machine basics Let_def)

text \<open>
  C1, amended: in every run of the container in which each registered middleware is
  orderly (for an incoming response it calls \<^verbatim>\<open>next\<close> at most once, and for an outgoing
  request it makes at most one call, of \<^verbatim>\<open>next\<close> or of \<^verbatim>\<open>msg.reply\<close>; middlewares make
  their calls synchronously, as in the model of the chain), the callback of a
  request is called at most once on behalf of that request: the calls tagged with the
  address of the request (the call with the \<^verbatim>\<open>TECHERR\<close> error, a call of \<^verbatim>\<open>msg.reply\<close> by a
  middleware of the outgoing request, and the call with the response or the \<^verbatim>\<open>TIMEOUT\<close>
  error) number at most one. In particular, when a response and the timeout both emit
  \<^verbatim>\<open>res|id\<close>, the first emission removes the one-shot listener and the second reaches no
  callback.
\<close>

theorem callback_at_most_once:
  assumes "list_all orderly (concat (map (registers \<circ> snd) evs))"
  shows "length (filter (callFor a) (effects (run evs init))) \<le> 1"
proof -
  have "list_all orderly (middlewares init)" by (simp add: init_def)
  from run_atMostOnce [OF this init_atMostOnce assms]
  have "uses a (run evs init) \<le> (if a < length (heap (run evs init)) then 1 else 0)"
    by (simp add: atMostOnce_def)
  then have "uses a (run evs init) \<le> 1"
    by (simp split: if_splits)
  then show ?thesis by (simp add: uses_plain)
qed

theorem callback_at_most_once_witness:
  "list_all orderly (concat (map (registers \<circ> snd) race)) \<and>
   length (filter (callFor 0) (effects (run race init))) \<le> 1 \<and>
   filter (callFor 0) (effects (run race init)) =
     [Call (Some 0) (JFun (UserFn 1)) [AVal JNull, ARes pongRes]] \<and>
   listeners (run race init) = [] \<and> immediates (run race init) = []"
proof -
  have h: "list_all orderly (concat (map (registers \<circ> snd) race))"
    by (simp add: race_def orderly_def passThrough_def)
  from h callback_at_most_once [OF h, of 0] race_calls show ?thesis by blast
qed

end
